theory Spec2Isabelle
  imports Main
begin

section \<open>The time period module\<close>

text \<open>
  A shallow embedding of \<^verbatim>\<open>timeperiod.py\<close>, which decides whether a timestamp lies in a
  period written in the notation of Perl's Time::Period.

  The module is read with the semantics of CPython 2.7, the first interpreter its
  \<^verbatim>\<open>setup.py\<close> lists and the one its idiom is written for
  (\<^verbatim>\<open>from __future__ import print_function\<close>, and \<^verbatim>\<open>/\<close> used on two ints where a
  whole number is needed):
  \<^item> a \<^verbatim>\<open>str\<close> is a string of 8-bit characters, here \<^typ>\<open>string\<close>;
  \<^item> \<^verbatim>\<open>/\<close> on two ints is floor division, here \<open>div\<close> on \<^typ>\<open>int\<close>
    (an interpreter of the 3.x line divides exactly there and yields a float);
  \<^item> in a regular expression \<^verbatim>\<open>\s\<close> is one of the six ASCII whitespace characters,
    \<^verbatim>\<open>\w\<close> is \<^verbatim>\<open>[A-Za-z0-9_]\<close> and \<^verbatim>\<open>.\<close> is any character but the newline;
  \<^item> a dict is an association list in insertion order. The order in which CPython 2.7
    iterates over a dict is not specified; the theorems below do not depend on the order
    chosen here.

  The ints 0 and 1 that the source returns for false and true are \<^typ>\<open>bool\<close> here. An
  exception is the left injection of a sum. The default of the parameter \<^verbatim>\<open>dt\<close>
  (the clock) is not modelled: the timestamp is always given.
\<close>

subsection \<open>Characters and library functions on strings\<close>

definition is_space :: "char \<Rightarrow> bool" where
  "is_space c = (c = CHR '' '' \<or> c = CHR 0x09 \<or> c = CHR 0x0A \<or> c = CHR 0x0B
     \<or> c = CHR 0x0C \<or> c = CHR 0x0D)"

definition is_word :: "char \<Rightarrow> bool" where
  "is_word c = (let n = (of_char c :: nat) in
     (97 \<le> n \<and> n \<le> 122) \<or> (65 \<le> n \<and> n \<le> 90) \<or> (48 \<le> n \<and> n \<le> 57) \<or> n = 95)"

definition is_digit :: "char \<Rightarrow> bool" where
  "is_digit c = (let n = (of_char c :: nat) in 48 \<le> n \<and> n \<le> 57)"

text \<open>\<^verbatim>\<open>str.lower\<close>: the letters A to Z go to a to z, every other character stays.\<close>

definition upper_lower :: "(char \<times> char) list" where
  "upper_lower = zip ''ABCDEFGHIJKLMNOPQRSTUVWXYZ'' ''abcdefghijklmnopqrstuvwxyz''"

definition lower_char :: "char \<Rightarrow> char" where
  "lower_char c = (case map_of upper_lower c of Some d \<Rightarrow> d | None \<Rightarrow> c)"

definition lower :: "string \<Rightarrow> string" where
  "lower s = map lower_char s"

text \<open>\<^verbatim>\<open>str.strip\<close> with no argument.\<close>

definition strip :: "string \<Rightarrow> string" where
  "strip s = rev (dropWhile is_space (rev (dropWhile is_space s)))"

text \<open>
  \<^verbatim>\<open>s.split(c)\<close> and \<^verbatim>\<open>re.split\<close> on a pattern that matches one character: the pieces
  between the separators, empty pieces included, so the result is never empty.
\<close>

fun split_on :: "(char \<Rightarrow> bool) \<Rightarrow> string \<Rightarrow> string list" where
  "split_on P [] = [[]]"
| "split_on P (c # cs) =
     (if P c then [] # split_on P cs
      else (case split_on P cs of x # xs \<Rightarrow> (c # x) # xs | [] \<Rightarrow> [[c]]))"

text \<open>
  \<^verbatim>\<open>int(s)\<close> on a string, base 10: whitespace around the literal is dropped, one sign
  is allowed, and at least one digit must follow; \<open>None\<close> is the \<^verbatim>\<open>ValueError\<close>.
\<close>

definition digit_val :: "char \<Rightarrow> int" where
  "digit_val c = int (of_char c) - 48"

definition digits_val :: "string \<Rightarrow> int option" where
  "digits_val ds = (if ds \<noteq> [] \<and> list_all is_digit ds
     then Some (foldl (\<lambda>a d. 10 * a + digit_val d) 0 ds) else None)"

definition py_int :: "string \<Rightarrow> int option" where
  "py_int s = (case strip s of
       [] \<Rightarrow> None
     | c # cs \<Rightarrow> if c = CHR ''-'' then map_option uminus (digits_val cs)
                else if c = CHR ''+'' then digits_val cs
                else digits_val (c # cs))"

text \<open>\<^verbatim>\<open>str(n)\<close> and the conversion \<^verbatim>\<open>%d\<close> of an int.\<close>

fun str_nat :: "nat \<Rightarrow> string" where
  "str_nat n = (if n < 10 then [''0123456789'' ! n]
                else str_nat (n div 10) @ [''0123456789'' ! (n mod 10)])"

declare str_nat.simps [simp del]

definition str_int :: "int \<Rightarrow> string" where
  "str_int i = (if i < 0 then CHR ''-'' # str_nat (nat (- i)) else str_nat (nat i))"

subsection \<open>The timestamp\<close>

text \<open>
  The fields of a \<^verbatim>\<open>datetime\<close> that the module reads. \<^verbatim>\<open>dt.weekday()\<close> (Monday is 0)
  and the day of the year \<^verbatim>\<open>int(dt.strftime('%j'))\<close> are computed from the date as the
  library does, over the proleptic Gregorian calendar.
\<close>

record datetime =
  year :: int
  month :: int
  day :: int
  hour :: int
  minute :: int
  second :: int

definition is_leap :: "int \<Rightarrow> bool" where
  "is_leap y = (y mod 4 = 0 \<and> (y mod 100 \<noteq> 0 \<or> y mod 400 = 0))"

definition days_before_year :: "int \<Rightarrow> int" where
  "days_before_year y = (y - 1) * 365 + (y - 1) div 4 - (y - 1) div 100 + (y - 1) div 400"

definition days_in_month :: "int \<Rightarrow> int \<Rightarrow> int" where
  "days_in_month y m = (if m = 2 then (if is_leap y then 29 else 28)
     else if m = 4 \<or> m = 6 \<or> m = 9 \<or> m = 11 then 30 else 31)"

definition days_before_month :: "int \<Rightarrow> int \<Rightarrow> int" where
  "days_before_month y m = sum_list (map (\<lambda>k. days_in_month y (int k)) [1 ..< nat m])"

definition yday :: "datetime \<Rightarrow> int" where
  "yday dt = days_before_month (year dt) (month dt) + day dt"

definition toordinal :: "datetime \<Rightarrow> int" where
  "toordinal dt = days_before_year (year dt) + yday dt"

definition weekday :: "datetime \<Rightarrow> int" where
  "weekday dt = (toordinal dt + 6) mod 7"

subsection \<open>Errors\<close>

text \<open>
  \<^verbatim>\<open>InvalidFormat\<close> carries its message. \<^verbatim>\<open>KeyError\<close> is what a lookup in the table
  of scales would raise on a missing key.
\<close>

datatype error = InvalidFormat string | KeyError string

subsection \<open>Ranges\<close>

text \<open>\<^verbatim>\<open>_is_in_range(x, low, high)\<close>; \<open>None\<close> is Python's \<^verbatim>\<open>None\<close>.\<close>

definition is_in_range :: "int \<Rightarrow> int \<Rightarrow> int option \<Rightarrow> bool" where
  "is_in_range x low high =
     (case high of
        None \<Rightarrow> (if low \<noteq> x then False else True)
      | Some h \<Rightarrow>
          if low = h then (if low \<noteq> x then False else True)
          else if h > low then (if x > h \<or> x < low then False else True)
          else if low > h then (if \<not> (x \<ge> low \<or> x \<le> h) then False else True)
          else True)"

text \<open>\<^verbatim>\<open>_splitrange(range)\<close>: the text before the first dash and, when there is a dash,
  the text between the first and the second.\<close>

definition splitrange :: "string \<Rightarrow> string \<times> string option" where
  "splitrange rng =
     (let lowhigh = split_on (\<lambda>c. c = CHR ''-'') rng;
          low = hd lowhigh;
          high = (if length lowhigh > 1 then Some (lowhigh ! 1) else None)
      in (low, high))"

text \<open>
  A bound reaches \<^verbatim>\<open>_in_min_max\<close> as a string, or as an int when the caller has
  converted it already (\<^verbatim>\<open>hr\<close> does); \<^verbatim>\<open>int\<close> accepts both.
\<close>

datatype bound = Str string | Num int

fun int_of :: "bound \<Rightarrow> int option" where
  "int_of (Str s) = py_int s"
| "int_of (Num i) = Some i"

definition required :: "string \<Rightarrow> error" where
  "required scale = InvalidFormat (''An integer value is required for '' @ scale @ ''.'')"

definition not_valid :: "int \<Rightarrow> string \<Rightarrow> int \<Rightarrow> int \<Rightarrow> error" where
  "not_valid v scale mn mx = InvalidFormat (str_int v @ '' is not valid for '' @ scale
     @ ''. Valid options are between '' @ str_int mn @ '' and '' @ str_int mx @ ''.'')"

definition in_min_max ::
  "bound \<Rightarrow> bound option \<Rightarrow> int \<Rightarrow> int \<Rightarrow> string \<Rightarrow> error + (int \<times> int option)" where
  "in_min_max low high mn mx scale =
     (case int_of low of
        None \<Rightarrow> Inl (required scale)
      | Some l \<Rightarrow>
          if l < mn \<or> l > mx then Inl (not_valid l scale mn mx)
          else (case high of
                  None \<Rightarrow> Inr (l, None)
                | Some hb \<Rightarrow>
                    (case int_of hb of
                       None \<Rightarrow> Inl (required scale)
                     | Some h \<Rightarrow>
                         if h < mn \<or> h > mx then Inl (not_valid h scale mn mx)
                         else Inr (l, Some h))))"

subsection \<open>The tables of names\<close>

definition DAYS :: "(string \<times> int) list" where
  "DAYS = [(''su'', 1), (''mo'', 2), (''tu'', 3), (''we'', 4), (''th'', 5), (''fr'', 6),
     (''sa'', 7)]"

definition MONTHS :: "(string \<times> int) list" where
  "MONTHS = [(''jan'', 1), (''feb'', 2), (''mar'', 3), (''apr'', 4), (''may'', 5),
     (''jun'', 6), (''jul'', 7), (''aug'', 8), (''sep'', 9), (''oct'', 10), (''nov'', 11),
     (''dec'', 12)]"

text \<open>
  \<^verbatim>\<open>re.sub("%s.*?(?=\s|-|$)" % name, repl, range)\<close>, for a name that is not empty: from
  left to right, each occurrence of the name is replaced together with what follows it up
  to the next whitespace, the next dash or the end. The lazy \<^verbatim>\<open>.*?\<close> stops at the first
  place where the lookahead holds, so it takes exactly the characters that are neither
  whitespace nor a dash.
\<close>

function sub_name :: "string \<Rightarrow> string \<Rightarrow> string \<Rightarrow> string" where
  "sub_name name repl [] = []"
| "sub_name name repl (c # cs) =
     (if name \<noteq> [] \<and> take (length name) (c # cs) = name
      then repl @ sub_name name repl
             (dropWhile (\<lambda>x. \<not> is_space x \<and> x \<noteq> CHR ''-'') (drop (length name) (c # cs)))
      else c # sub_name name repl cs)"
  by pat_completeness auto
termination
proof (relation "measure (\<lambda>(name, repl, s). length s)", goal_cases)
  case 1
  show ?case by simp
next
  case (2 name repl c cs)
  have "length (dropWhile (\<lambda>x. \<not> is_space x \<and> x \<noteq> CHR ''-'') (drop (length name) (c # cs)))
          \<le> length (drop (length name) (c # cs))"
    by (rule length_dropWhile_le)
  moreover have "length (drop (length name) (c # cs)) < length (c # cs)"
    using 2 by (cases name) auto
  ultimately show ?case by simp
next
  case 3
  show ?case by simp
qed

subsection \<open>The scales\<close>

text \<open>
  Each scale goes through its ranges in order and stops at the first that matches, or
  at the first that raises. In \<^verbatim>\<open>normal_year\<close> and \<^verbatim>\<open>normal_hour\<close> the test for
  \<^verbatim>\<open>None\<close> is the case distinction on \<open>high\<close> at the call: \<open>low\<close> is a string always.
\<close>

fun simple_test :: "int \<Rightarrow> string list \<Rightarrow> int \<Rightarrow> int \<Rightarrow> string \<Rightarrow> error + bool" where
  "simple_test now [] mn mx scale = Inr False"
| "simple_test now (rng # ranges) mn mx scale =
     (case splitrange rng of (low, high) \<Rightarrow>
        (case in_min_max (Str low) (map_option Str high) mn mx scale of
           Inl e \<Rightarrow> Inl e
         | Inr (l, h) \<Rightarrow>
             if is_in_range now l h then Inr True
             else simple_test now ranges mn mx scale))"

definition normal_year :: "string \<Rightarrow> datetime \<Rightarrow> error + int" where
  "normal_year y dt =
     (case py_int y of
        None \<Rightarrow> Inl (InvalidFormat ''An integer value is required for year.'')
      | Some v \<Rightarrow>
          if v < 100 then (let century = year dt div 100 in Inr (100 * century + v))
          else Inr v)"

fun yr :: "string list \<Rightarrow> datetime \<Rightarrow> error + bool" where
  "yr [] dt = Inr False"
| "yr (rng # ranges) dt =
     (case splitrange rng of (low, high) \<Rightarrow>
        (case normal_year low dt of
           Inl e \<Rightarrow> Inl e
         | Inr l \<Rightarrow>
             (case (case high of None \<Rightarrow> Inr None
                    | Some hs \<Rightarrow> (case normal_year hs dt of Inl e \<Rightarrow> Inl e
                                  | Inr v \<Rightarrow> Inr (Some v))) of
                Inl e \<Rightarrow> Inl e
              | Inr h \<Rightarrow>
                  if is_in_range (year dt) l h then Inr True else yr ranges dt)))"

fun mo :: "string list \<Rightarrow> datetime \<Rightarrow> error + bool" where
  "mo [] dt = Inr False"
| "mo (rng # ranges) dt =
     (let rng = fold (\<lambda>(name, code) r. sub_name name (str_int code) r) MONTHS rng
      in case splitrange rng of (low, high) \<Rightarrow>
        (case in_min_max (Str low) (map_option Str high) 1 12 ''month'' of
           Inl e \<Rightarrow> Inl e
         | Inr (l, h) \<Rightarrow>
             if is_in_range (month dt) l h then Inr True else mo ranges dt))"

definition wk :: "string list \<Rightarrow> datetime \<Rightarrow> error + bool" where
  "wk ranges dt = (let week = (day dt - 1) div 7 + 1 in simple_test week ranges 1 5 ''week'')"

definition yd :: "string list \<Rightarrow> datetime \<Rightarrow> error + bool" where
  "yd ranges dt = (let today = yday dt in simple_test today ranges 1 366 ''year day'')"

definition md :: "string list \<Rightarrow> datetime \<Rightarrow> error + bool" where
  "md ranges dt = simple_test (day dt) ranges 1 31 ''day''"

definition wd_today :: "datetime \<Rightarrow> int" where
  "wd_today dt = (let today = (weekday dt + 2) mod 7 in if today = 0 then 7 else today)"

fun wd_ranges :: "int \<Rightarrow> string list \<Rightarrow> error + bool" where
  "wd_ranges today [] = Inr False"
| "wd_ranges today (rng # ranges) =
     (let rng = fold (\<lambda>(name, code) r. sub_name name (str_int code) r) DAYS rng
      in case splitrange rng of (low, high) \<Rightarrow>
        (case in_min_max (Str low) (map_option Str high) 1 7 ''weekday'' of
           Inl e \<Rightarrow> Inl e
         | Inr (l, h) \<Rightarrow>
             if is_in_range today l h then Inr True else wd_ranges today ranges))"

definition wd :: "string list \<Rightarrow> datetime \<Rightarrow> error + bool" where
  "wd ranges dt = wd_ranges (wd_today dt) ranges"

definition normal_hour :: "string \<Rightarrow> error + int" where
  "normal_hour h =
     (case py_int h of
        None \<Rightarrow> Inl (InvalidFormat ''An integer value is required for hour.'')
      | Some v \<Rightarrow> Inr v)"

fun hr_ranges :: "int \<Rightarrow> string list \<Rightarrow> error + bool" where
  "hr_ranges now [] = Inr False"
| "hr_ranges now (rng # ranges) =
     (case splitrange rng of (low, high) \<Rightarrow>
        (case normal_hour low of
           Inl e \<Rightarrow> Inl e
         | Inr l \<Rightarrow>
             (case (case high of None \<Rightarrow> Inr None
                    | Some hs \<Rightarrow> (case normal_hour hs of Inl e \<Rightarrow> Inl e
                                  | Inr v \<Rightarrow> Inr (Some v))) of
                Inl e \<Rightarrow> Inl e
              | Inr h \<Rightarrow>
                  (case in_min_max (Num l) (map_option Num h) 0 23 ''hour'' of
                     Inl e \<Rightarrow> Inl e
                   | Inr (l', h') \<Rightarrow>
                       if is_in_range now l' h' then Inr True else hr_ranges now ranges))))"

definition hr :: "string list \<Rightarrow> datetime \<Rightarrow> error + bool" where
  "hr ranges dt = (let now = hour dt in hr_ranges now ranges)"

definition min_scale :: "string list \<Rightarrow> datetime \<Rightarrow> error + bool" where
  "min_scale ranges dt = simple_test (minute dt) ranges 0 59 ''minute''"

definition sec :: "string list \<Rightarrow> datetime \<Rightarrow> error + bool" where
  "sec ranges dt = simple_test (second dt) ranges 0 59 ''second''"

text \<open>The dict of scale codes with the functions that process them.\<close>

definition SCALES :: "(string \<times> (string list \<Rightarrow> datetime \<Rightarrow> error + bool)) list" where
  "SCALES = [(''yr'', yr), (''year'', yr), (''mo'', mo), (''month'', mo), (''wk'', wk),
     (''week'', wk), (''yd'', yd), (''yday'', yd), (''md'', md), (''mday'', md),
     (''wd'', wd), (''wday'', wd), (''hr'', hr), (''hour'', hr), (''min'', min_scale),
     (''minute'', min_scale), (''sec'', sec), (''second'', sec)]"

subsection \<open>Parsing a scale expression\<close>

text \<open>
  \<^verbatim>\<open>re.search("(\w+?)\{(.*?)\}", scale_exp)\<close>. A match that starts at a given place is one
  or more word characters up to an opening brace (a brace is no word character, so the
  lazy \<^verbatim>\<open>\w+?\<close> has to take the whole run), then the text up to the first closing brace,
  which must hold no newline. The search returns the match with the leftmost start;
  \<open>None\<close> is no match. The pair is \<^verbatim>\<open>(m.group(1), m.group(2))\<close>.
\<close>

definition match_here :: "string \<Rightarrow> (string \<times> string) option" where
  "match_here s =
     (let w = takeWhile is_word s; r = dropWhile is_word s in
      if w \<noteq> [] \<and> r \<noteq> [] \<and> hd r = CHR ''{''
      then (let body = takeWhile (\<lambda>c. c \<noteq> CHR ''}'') (tl r);
                rest = dropWhile (\<lambda>c. c \<noteq> CHR ''}'') (tl r)
            in if rest \<noteq> [] \<and> CHR 0x0A \<notin> set body then Some (w, body) else None)
      else None)"

fun re_search :: "string \<Rightarrow> (string \<times> string) option" where
  "re_search [] = None"
| "re_search (c # cs) =
     (case match_here (c # cs) of Some m \<Rightarrow> Some m | None \<Rightarrow> re_search cs)"

definition parse_scale :: "string \<Rightarrow> error + (string \<times> string list)" where
  "parse_scale scale_exp =
     (case re_search scale_exp of
        None \<Rightarrow> Inl (InvalidFormat ''Unable to parse the given time period.'')
      | Some (scale, rng) \<Rightarrow>
          if map_of SCALES scale = None
          then Inl (InvalidFormat (scale @ '' is not a valid scale.''))
          else (let ranges = split_on is_space rng in Inr (scale, ranges)))"

subsection \<open>Sub-periods\<close>

text \<open>
  \<^verbatim>\<open>range_lists\<close> is the dict from a scale code to its list of ranges: a code that
  is there already gets the new ranges at the end of its list, a new code is entered.
\<close>

fun add_ranges ::
  "string \<Rightarrow> string list \<Rightarrow> (string \<times> string list) list \<Rightarrow> (string \<times> string list) list" where
  "add_ranges scale ranges [] = [(scale, ranges)]"
| "add_ranges scale ranges ((k, v) # range_lists) =
     (if k = scale then (k, v @ ranges) # range_lists
      else (k, v) # add_ranges scale ranges range_lists)"

fun build_range_lists ::
  "string list \<Rightarrow> (string \<times> string list) list \<Rightarrow> error + (string \<times> string list) list" where
  "build_range_lists [] range_lists = Inr range_lists"
| "build_range_lists (scale_exp # scales) range_lists =
     (case parse_scale scale_exp of
        Inl e \<Rightarrow> Inl e
      | Inr (scale, ranges) \<Rightarrow> build_range_lists scales (add_ranges scale ranges range_lists))"

fun check_scales :: "(string \<times> string list) list \<Rightarrow> datetime \<Rightarrow> error + bool" where
  "check_scales [] dt = Inr True"
| "check_scales ((scale, ranges) # range_lists) dt =
     (case map_of SCALES scale of
        None \<Rightarrow> Inl (KeyError scale)
      | Some f \<Rightarrow>
          (case f ranges dt of
             Inl e \<Rightarrow> Inl e
           | Inr result \<Rightarrow> if result \<noteq> True then Inr result else check_scales range_lists dt))"

definition is_in_sub_period :: "string \<Rightarrow> datetime \<Rightarrow> error + bool" where
  "is_in_sub_period sp dt =
     (if sp = ''never'' then Inr False
      else if sp = ''none'' \<or> sp = ''always'' \<or> sp = [] then Inr True
      else (let scales = split_on (\<lambda>c. c = CHR ''|'') sp in
            case build_range_lists scales [] of
              Inl e \<Rightarrow> Inl e
            | Inr range_lists \<Rightarrow> check_scales range_lists dt))"

subsection \<open>The normalizer\<close>

text \<open>
  The seven substitutions at the head of \<^verbatim>\<open>in_period\<close>, each written as the scan from
  left to right that \<^verbatim>\<open>re.sub\<close> makes. A match of \<^verbatim>\<open>\s*\<close> is greedy, so a run of
  whitespace goes as a whole or stays as a whole. An empty match is replaced by the
  empty string, which changes nothing.

  \<^verbatim>\<open>re.sub(r"^\s*|\s*$", '', period)\<close> is \<^const>\<open>strip\<close>.

  \<^verbatim>\<open>re.sub(r"\s*(?={|$)", '', period)\<close> drops each run of whitespace that stands before an
  opening brace or at the end.
\<close>

function drop_space_before_brace :: "string \<Rightarrow> string" where
  "drop_space_before_brace [] = []"
| "drop_space_before_brace (c # cs) =
     (if is_space c
      then (let r = dropWhile is_space cs in
            if r = [] \<or> hd r = CHR ''{'' then drop_space_before_brace r
            else c # drop_space_before_brace cs)
      else c # drop_space_before_brace cs)"
  by pat_completeness auto
termination
  by (relation "measure length") (auto simp: less_Suc_eq_le length_dropWhile_le)

text \<open>\<^verbatim>\<open>re.sub(r",\s*", ',', period)\<close> and \<^verbatim>\<open>re.sub(r"{\s*", '{', period)\<close>: the whitespace
  after each \<open>a\<close> goes.\<close>

function drop_space_after :: "char \<Rightarrow> string \<Rightarrow> string" where
  "drop_space_after a [] = []"
| "drop_space_after a (c # cs) =
     (if c = a then a # drop_space_after a (dropWhile is_space cs)
      else c # drop_space_after a cs)"
  by pat_completeness auto
termination
  by (relation "measure (\<lambda>(a, s). length s)") (auto simp: less_Suc_eq_le length_dropWhile_le)

text \<open>\<^verbatim>\<open>re.sub(r"\s*-\s*", '-', period)\<close> and \<^verbatim>\<open>re.sub(r"\s*}\s*", '}', period)\<close>: the
  whitespace on both sides of each \<open>a\<close> goes.\<close>

function drop_space_around :: "char \<Rightarrow> string \<Rightarrow> string" where
  "drop_space_around a [] = []"
| "drop_space_around a (c # cs) =
     (let r = dropWhile is_space (c # cs) in
      if r \<noteq> [] \<and> hd r = a then a # drop_space_around a (dropWhile is_space (tl r))
      else c # drop_space_around a cs)"
  by pat_completeness auto
termination
proof (relation "measure (\<lambda>(a, s). length s)", goal_cases)
  case 1
  show ?case by simp
next
  case (2 a c cs r)
  have "length (dropWhile is_space (tl r)) \<le> length (tl r)"
    by (rule length_dropWhile_le)
  moreover have "length (tl r) < length r"
    using 2 by (cases r) auto
  moreover have "length r \<le> length (c # cs)"
    using 2 by (simp only: length_dropWhile_le)
  ultimately show ?case by simp
next
  case 3
  show ?case by simp
qed

text \<open>\<^verbatim>\<open>re.sub(r"}(?=[^,])", '}|', period)\<close>: a bar goes after each closing brace that
  is followed by a character other than a comma.\<close>

fun insert_or :: "string \<Rightarrow> string" where
  "insert_or [] = []"
| "insert_or (c # cs) =
     (if c = CHR ''}'' \<and> cs \<noteq> [] \<and> hd cs \<noteq> CHR '',''
      then CHR ''}'' # CHR ''|'' # insert_or cs
      else c # insert_or cs)"

definition normalize :: "string \<Rightarrow> string" where
  "normalize period =
     (let period = strip period;
          period = drop_space_before_brace period;
          period = drop_space_after (CHR '','') period;
          period = drop_space_around (CHR ''-'') period;
          period = drop_space_after (CHR ''{'') period;
          period = drop_space_around (CHR ''}'') period;
          period = insert_or period;
          period = lower period
      in period)"

subsection \<open>The period\<close>

fun any_sub_period :: "string list \<Rightarrow> datetime \<Rightarrow> error + bool" where
  "any_sub_period [] dt = Inr False"
| "any_sub_period (sp # sub_periods) dt =
     (case is_in_sub_period sp dt of
        Inl e \<Rightarrow> Inl e
      | Inr b \<Rightarrow> if b then Inr True else any_sub_period sub_periods dt)"

definition in_period :: "string \<Rightarrow> datetime \<Rightarrow> error + bool" where
  "in_period period dt =
     (let period = normalize period in
      if period = [] then Inr True
      else (let sub_periods = split_on (\<lambda>c. c = CHR '','') period
            in any_sub_period sub_periods dt))"

subsection \<open>What a scale reads from a range and from the timestamp\<close>

text \<open>
  The bounds that each scale computes from one range token, taken from the body of its
  loop, and the value of the timestamp that it tests them against.
\<close>

definition simple_bounds :: "int \<Rightarrow> int \<Rightarrow> string \<Rightarrow> string \<Rightarrow> error + (int \<times> int option)" where
  "simple_bounds mn mx scale rng =
     (case splitrange rng of (low, high) \<Rightarrow>
        in_min_max (Str low) (map_option Str high) mn mx scale)"

definition yr_bounds :: "datetime \<Rightarrow> string \<Rightarrow> error + (int \<times> int option)" where
  "yr_bounds dt rng =
     (case splitrange rng of (low, high) \<Rightarrow>
        (case normal_year low dt of
           Inl e \<Rightarrow> Inl e
         | Inr l \<Rightarrow>
             (case high of
                None \<Rightarrow> Inr (l, None)
              | Some hs \<Rightarrow> (case normal_year hs dt of Inl e \<Rightarrow> Inl e
                            | Inr v \<Rightarrow> Inr (l, Some v)))))"

definition mo_bounds :: "string \<Rightarrow> error + (int \<times> int option)" where
  "mo_bounds rng =
     simple_bounds 1 12 ''month''
       (fold (\<lambda>(name, code) r. sub_name name (str_int code) r) MONTHS rng)"

definition wd_bounds :: "string \<Rightarrow> error + (int \<times> int option)" where
  "wd_bounds rng =
     simple_bounds 1 7 ''weekday''
       (fold (\<lambda>(name, code) r. sub_name name (str_int code) r) DAYS rng)"

definition hr_bounds :: "string \<Rightarrow> error + (int \<times> int option)" where
  "hr_bounds rng =
     (case splitrange rng of (low, high) \<Rightarrow>
        (case normal_hour low of
           Inl e \<Rightarrow> Inl e
         | Inr l \<Rightarrow>
             (case high of
                None \<Rightarrow> in_min_max (Num l) None 0 23 ''hour''
              | Some hs \<Rightarrow> (case normal_hour hs of Inl e \<Rightarrow> Inl e
                            | Inr v \<Rightarrow> in_min_max (Num l) (Some (Num v)) 0 23 ''hour''))))"

text \<open>
  The table of section 4.5 of the specification: for each scale code, the value of the
  timestamp on that scale and the reading of a range token.
\<close>

definition scale_now :: "string \<Rightarrow> datetime \<Rightarrow> int" where
  "scale_now k dt =
     (if k = ''yr'' \<or> k = ''year'' then year dt
      else if k = ''mo'' \<or> k = ''month'' then month dt
      else if k = ''wk'' \<or> k = ''week'' then (day dt - 1) div 7 + 1
      else if k = ''yd'' \<or> k = ''yday'' then yday dt
      else if k = ''md'' \<or> k = ''mday'' then day dt
      else if k = ''wd'' \<or> k = ''wday'' then wd_today dt
      else if k = ''hr'' \<or> k = ''hour'' then hour dt
      else if k = ''min'' \<or> k = ''minute'' then minute dt
      else second dt)"

definition scale_bounds :: "string \<Rightarrow> datetime \<Rightarrow> string \<Rightarrow> error + (int \<times> int option)" where
  "scale_bounds k dt =
     (if k = ''yr'' \<or> k = ''year'' then yr_bounds dt
      else if k = ''mo'' \<or> k = ''month'' then mo_bounds
      else if k = ''wk'' \<or> k = ''week'' then simple_bounds 1 5 ''week''
      else if k = ''yd'' \<or> k = ''yday'' then simple_bounds 1 366 ''year day''
      else if k = ''md'' \<or> k = ''mday'' then simple_bounds 1 31 ''day''
      else if k = ''wd'' \<or> k = ''wday'' then wd_bounds
      else if k = ''hr'' \<or> k = ''hour'' then hr_bounds
      else if k = ''min'' \<or> k = ''minute'' then simple_bounds 0 59 ''minute''
      else simple_bounds 0 59 ''second'')"

text \<open>The loop over the ranges of one scale, as every scale runs it.\<close>

fun first_match ::
  "(string \<Rightarrow> error + (int \<times> int option)) \<Rightarrow> int \<Rightarrow> string list \<Rightarrow> error + bool" where
  "first_match bounds x [] = Inr False"
| "first_match bounds x (rng # ranges) =
     (case bounds rng of
        Inl e \<Rightarrow> Inl e
      | Inr (l, h) \<Rightarrow> if is_in_range x l h then Inr True else first_match bounds x ranges)"

text \<open>A range matches on a scale when its bounds are read without error and hold the
  value of the timestamp.\<close>

definition range_matches :: "string \<Rightarrow> datetime \<Rightarrow> string \<Rightarrow> bool" where
  "range_matches k dt rng =
     (case scale_bounds k dt rng of
        Inl e \<Rightarrow> False
      | Inr (l, h) \<Rightarrow> is_in_range (scale_now k dt) l h)"


subsection \<open>The specification of a match\<close>







text \<open>
  The loop that goes through a list until an element raises or holds; the loops over
  the sub-periods and over the ranges of a scale are instances of it.
\<close>

fun scan :: "('a \<Rightarrow> error + bool) \<Rightarrow> 'a list \<Rightarrow> error + bool" where
  "scan f [] = Inr False"
| "scan f (x # xs) = (case f x of Inl e \<Rightarrow> Inl e | Inr b \<Rightarrow> if b then Inr True else scan f xs)"



subsection \<open>Adjacent characters\<close>

text \<open>
  What the normalizer leaves behind is said of the pairs of adjacent characters of a
  text: \<open>adj R s\<close> holds when every character of \<open>s\<close> stands in \<open>R\<close> to the next one. A
  relation keeps plain pairs when it holds of every two characters that are no
  whitespace. A text is tidy when no whitespace stands at its ends, before a brace or a
  dash, or after a comma, a dash or a brace: the six whitespace passes, in the order of
  the source, leave a tidy text and change no tidy text.
\<close>

fun adj :: "(char \<Rightarrow> char \<Rightarrow> bool) \<Rightarrow> string \<Rightarrow> bool" where
  "adj R [] = True"
| "adj R [a] = True"
| "adj R (a # b # s) = (R a b \<and> adj R (b # s))"

definition no_space_ends :: "string \<Rightarrow> bool" where
  "no_space_ends s = (s = [] \<or> (\<not> is_space (hd s) \<and> \<not> is_space (last s)))"

definition keeps_plain :: "(char \<Rightarrow> char \<Rightarrow> bool) \<Rightarrow> bool" where
  "keeps_plain R = (\<forall>a b. \<not> is_space a \<and> \<not> is_space b \<longrightarrow> R a b)"

definition tidy_pair :: "char \<Rightarrow> char \<Rightarrow> bool" where
  "tidy_pair x y =
     (\<not> (is_space x \<and> (y = CHR ''{'' \<or> y = CHR ''-'' \<or> y = CHR ''}''))
      \<and> \<not> ((x = CHR '','' \<or> x = CHR ''-'' \<or> x = CHR ''{'' \<or> x = CHR ''}'') \<and> is_space y))"

definition tidy :: "string \<Rightarrow> bool" where
  "tidy s = (adj tidy_pair s \<and> no_space_ends s)"

definition six_passes :: "string \<Rightarrow> string" where
  "six_passes s =
     drop_space_around (CHR ''}'') (drop_space_after (CHR ''{'')
       (drop_space_around (CHR ''-'') (drop_space_after (CHR '','')
         (drop_space_before_brace (strip s)))))"

section \<open>Properties\<close>

subsection \<open>The scales run one loop\<close>

lemma simple_test_first_match:
  "simple_test now ranges mn mx scale = first_match (simple_bounds mn mx scale) now ranges"
  by (induction ranges) (auto simp: simple_bounds_def split: prod.splits sum.splits)

lemma yr_first_match: "yr ranges dt = first_match (yr_bounds dt) (year dt) ranges"
  by (induction ranges)
    (auto simp: yr_bounds_def split: prod.splits sum.splits option.splits)

lemma mo_first_match: "mo ranges dt = first_match mo_bounds (month dt) ranges"
  by (induction ranges)
    (auto simp: mo_bounds_def simple_bounds_def Let_def split: prod.splits sum.splits)

lemma wd_ranges_first_match: "wd_ranges today ranges = first_match wd_bounds today ranges"
  by (induction ranges)
    (auto simp: wd_bounds_def simple_bounds_def Let_def split: prod.splits sum.splits)

lemma hr_ranges_first_match: "hr_ranges now ranges = first_match hr_bounds now ranges"
  by (induction ranges)
    (auto simp: hr_bounds_def split: prod.splits sum.splits option.splits)

lemma SCALES_first_match:
  assumes "map_of SCALES k = Some f"
  shows "f ranges dt = first_match (scale_bounds k dt) (scale_now k dt) ranges"
proof -
  from assms consider "k = ''yr''" | "k = ''year''" | "k = ''mo''" | "k = ''month''"
    | "k = ''wk''" | "k = ''week''" | "k = ''yd''" | "k = ''yday''" | "k = ''md''"
    | "k = ''mday''" | "k = ''wd''" | "k = ''wday''" | "k = ''hr''" | "k = ''hour''"
    | "k = ''min''" | "k = ''minute''" | "k = ''sec''" | "k = ''second''"
    by (auto simp: SCALES_def split: if_splits)
  then show ?thesis
    using assms
    by cases
      (simp_all add: SCALES_def scale_bounds_def scale_now_def yr_first_match mo_first_match
        wk_def yd_def md_def wd_def hr_def min_scale_def sec_def simple_test_first_match
        wd_ranges_first_match hr_ranges_first_match)
qed

lemma first_match_Inr:
  "first_match bounds x ranges = Inr b \<Longrightarrow>
     b = (\<exists>rng \<in> set ranges. \<exists>l h. bounds rng = Inr (l, h) \<and> is_in_range x l h)"
proof (induction ranges arbitrary: b)
  case Nil
  then show ?case by simp
next
  case (Cons r rs)
  show ?case
  proof (cases "bounds r")
    case (Inl e)
    then show ?thesis using Cons.prems by simp
  next
    case (Inr p)
    obtain l h where p: "p = (l, h)" by (cases p)
    show ?thesis
    proof (cases "is_in_range x l h")
      case True
      then show ?thesis using Cons.prems Inr p by auto
    next
      case False
      then have "first_match bounds x rs = Inr b"
        using Cons.prems Inr p by simp
      from Cons.IH [OF this] show ?thesis
        using False Inr p by auto
    qed
  qed
qed


subsection \<open>Evaluation on given texts\<close>


lemmas char_eval = is_space_def is_word_def is_digit_def digit_val_def
lemmas int_eval = py_int_def strip_def digits_val_def str_int_def str_nat.simps
lemmas bounds_eval = simple_bounds_def splitrange_def in_min_max_def required_def not_valid_def
  normal_hour_def normal_year_def yr_bounds_def hr_bounds_def mo_bounds_def wd_bounds_def
  DAYS_def MONTHS_def Let_def


subsection \<open>The matching rule\<close>

lemma range_matches_iff:
  "range_matches k dt rng
     = (\<exists>l h. scale_bounds k dt rng = Inr (l, h) \<and> is_in_range (scale_now k dt) l h)"
proof (cases "scale_bounds k dt rng")
  case (Inl e)
  then show ?thesis by (simp add: range_matches_def)
next
  case (Inr p)
  then show ?thesis by (cases p) (simp add: range_matches_def)
qed

text \<open>
  Claim C1. \<^verbatim>\<open>_is_in_range\<close> holds for \<open>x\<close> exactly when: \<open>x = low\<close>, if there is no high
  bound or the high bound equals the low one; \<open>low \<le> x \<le> high\<close>, if \<open>high > low\<close>;
  \<open>x \<ge> low\<close> or \<open>x \<le> high\<close>, if \<open>high < low\<close>. Every scale in the table applies this
  rule to each of its ranges in turn: it runs the loop \<^const>\<open>first_match\<close> on the bounds it
  reads and the value it takes from the timestamp, so when it returns a truth value, that
  value says whether one of its ranges matches by the rule.
\<close>

theorem range_rule:
  "(is_in_range x low None = (x = low))
   \<and> (is_in_range x low (Some low) = (x = low))
   \<and> (low < high \<longrightarrow> is_in_range x low (Some high) = (low \<le> x \<and> x \<le> high))
   \<and> (high < low \<longrightarrow> is_in_range x low (Some high) = (x \<ge> low \<or> x \<le> high))
   \<and> (map_of SCALES k = Some f \<longrightarrow>
        f ranges dt = first_match (scale_bounds k dt) (scale_now k dt) ranges)
   \<and> (map_of SCALES k = Some f \<longrightarrow> f ranges dt = Inr b \<longrightarrow>
        b = (\<exists>rng \<in> set ranges. range_matches k dt rng))"
proof -
  have a: "is_in_range x low None = (x = low)"
    and b: "is_in_range x low (Some low) = (x = low)"
    and c: "low < high \<longrightarrow> is_in_range x low (Some high) = (low \<le> x \<and> x \<le> high)"
    and d: "high < low \<longrightarrow> is_in_range x low (Some high) = (x \<ge> low \<or> x \<le> high)"
    by (auto simp: is_in_range_def)
  have e: "map_of SCALES k = Some f \<longrightarrow>
        f ranges dt = first_match (scale_bounds k dt) (scale_now k dt) ranges"
    by (simp add: SCALES_first_match)
  have f: "map_of SCALES k = Some f \<longrightarrow> f ranges dt = Inr b \<longrightarrow>
        b = (\<exists>rng \<in> set ranges. range_matches k dt rng)"
  proof (intro impI)
    assume k: "map_of SCALES k = Some f" and r: "f ranges dt = Inr b"
    have "first_match (scale_bounds k dt) (scale_now k dt) ranges = Inr b"
      using SCALES_first_match [OF k, of ranges dt] r by simp
    from first_match_Inr [OF this] show "b = (\<exists>rng \<in> set ranges. range_matches k dt rng)"
      by (simp add: range_matches_iff)
  qed
  from a b c d e f show ?thesis by blast
qed

theorem range_rule_witness:
  "is_in_range 7 6 (Some 2) \<and> \<not> is_in_range 4 6 (Some 2)
   \<and> is_in_range 3 2 (Some 6) \<and> \<not> is_in_range 7 2 (Some 6)
   \<and> map_of SCALES ''wd'' = Some wd
   \<and> wd [''tu'', ''fr-mo'']
        \<lparr>year = 2014, month = 2, day = 14, hour = 12, minute = 5, second = 0\<rparr> = Inr True"
proof -
  let ?dt = "\<lparr>year = 2014, month = 2, day = 14, hour = 12, minute = 5, second = 0\<rparr>"
  have k: "map_of SCALES ''wd'' = Some wd"
    by (simp add: SCALES_def)
  have w: "wd [''tu'', ''fr-mo''] ?dt = Inr True"
    by (simp add: wd_def wd_today_def weekday_def toordinal_def yday_def days_before_year_def
        days_before_month_def days_in_month_def is_leap_def upt_conv_Cons
        bounds_eval int_eval char_eval is_in_range_def)
  show ?thesis
    using range_rule [of 7 6 2 "''wd''" wd "[''tu'', ''fr-mo'']" ?dt True]
      range_rule [of 4 6 2 "''wd''" wd "[''tu'', ''fr-mo'']" ?dt True]
      range_rule [of 3 2 6 "''wd''" wd "[''tu'', ''fr-mo'']" ?dt True]
      range_rule [of 7 2 6 "''wd''" wd "[''tu'', ''fr-mo'']" ?dt True] k w
    by simp
qed

lemmas norm_eval = normalize_def strip_def is_space_def lower_def lower_char_def upper_lower_def
  Let_def
lemmas parse_eval = parse_scale_def match_here_def is_word_def is_space_def SCALES_def Let_def
lemmas period_eval = in_period_def is_in_sub_period_def
lemmas scale_eval = yr_first_match mo_first_match wk_def yd_def md_def wd_def hr_def
  min_scale_def sec_def simple_test_first_match wd_ranges_first_match hr_ranges_first_match

lemma in_period_empty: "in_period '''' dt = Inr True"
  by (simp add: period_eval norm_eval)

lemma in_period_never: "in_period ''never'' dt = Inr False"
  by (simp add: period_eval norm_eval)

lemma in_period_always: "in_period ''always'' dt = Inr True"
  by (simp add: period_eval norm_eval)

lemma in_period_wd_fr_mo:
  "in_period ''wd {fr-mo}'' dt = Inr (is_in_range (wd_today dt) 6 (Some 2))"
  by (simp add: period_eval norm_eval parse_eval scale_eval bounds_eval int_eval char_eval)

lemma in_period_mo_jan_mar:
  "in_period ''mo {jan-mar}'' dt = Inr (is_in_range (month dt) 1 (Some 3))"
  by (simp add: period_eval norm_eval parse_eval scale_eval bounds_eval int_eval char_eval)

lemma in_period_mo_1_3:
  "in_period ''mo {1-3}'' dt = Inr (is_in_range (month dt) 1 (Some 3))"
  by (simp add: period_eval norm_eval parse_eval scale_eval bounds_eval int_eval char_eval)





lemma in_period_hr_12:
  "in_period ''hr {12}'' dt = Inr (is_in_range (hour dt) 12 None)"
  by (simp add: period_eval norm_eval parse_eval scale_eval bounds_eval int_eval char_eval)

lemma in_period_junk_hr_12:
  "in_period ''#hr {12}'' dt = Inr (is_in_range (hour dt) 12 None)"
  by (simp add: period_eval norm_eval parse_eval scale_eval bounds_eval int_eval char_eval)

subsection \<open>Fixed periods, names and years\<close>

lemma weekday_bounds: "0 \<le> weekday dt \<and> weekday dt < 7"
  by (simp add: weekday_def)

lemma wd_today_table:
  "wd_today dt = [2, 3, 4, 5, 6, 7, 1] ! nat (weekday dt)"
proof -
  define w where "w = weekday dt"
  have "0 \<le> w \<and> w < 7" unfolding w_def by (rule weekday_bounds)
  then have "w = 0 \<or> w = 1 \<or> w = 2 \<or> w = 3 \<or> w = 4 \<or> w = 5 \<or> w = 6" by arith
  then have "(let today = (w + 2) mod 7 in if today = 0 then 7 else today)
      = [2, 3, 4, 5, 6, 7, 1] ! nat w"
    by (elim disjE) simp_all
  then show ?thesis by (simp add: wd_today_def w_def)
qed

lemma re_search_skip:
  "\<forall>c \<in> set junk. \<not> is_word c \<Longrightarrow> re_search (junk @ s) = re_search s"
  by (induction junk) (simp_all add: match_here_def)

lemma re_search_found:
  "match_here s = Some m \<Longrightarrow> \<exists>m'. re_search (pre @ s) = Some m'"
proof (induction pre)
  case Nil
  then show ?case by (cases s) (auto simp: match_here_def)
next
  case (Cons c pre)
  then show ?case by (auto split: option.splits)
qed

text \<open>
  Claim C3. At every timestamp the empty period is true, the period \<^verbatim>\<open>never\<close> is false
  and the period \<^verbatim>\<open>always\<close> is true.
\<close>

theorem fixed_periods:
  "in_period '''' dt = Inr True \<and> in_period ''never'' dt = Inr False
   \<and> in_period ''always'' dt = Inr True"
  by (simp add: in_period_empty in_period_never in_period_always)

theorem fixed_periods_witness:
  "in_period '''' \<lparr>year = 2014, month = 2, day = 10, hour = 0, minute = 0, second = 0\<rparr> = Inr True
   \<and> in_period ''never'' \<lparr>year = 2014, month = 2, day = 10, hour = 0, minute = 0, second = 0\<rparr>
       = Inr False
   \<and> in_period ''always'' \<lparr>year = 2014, month = 2, day = 10, hour = 0, minute = 0, second = 0\<rparr>
       = Inr True"
  by (rule fixed_periods)

text \<open>
  Claim C4. At every timestamp the period \<^verbatim>\<open>wd {fr-mo}\<close> is true exactly on Friday,
  Saturday, Sunday and Monday (4, 5, 6 and 0 in the numbering of \<^verbatim>\<open>dt.weekday()\<close>), and
  false from Tuesday to Thursday. The value that the weekday scale tests is
  \<open>(weekday + 2) mod 7\<close> with 0 replaced by 7: Monday is 2, Saturday is 7 and Sunday is 1.
\<close>

theorem weekday_fr_mo:
  "in_period ''wd {fr-mo}'' dt
     = Inr (weekday dt = 4 \<or> weekday dt = 5 \<or> weekday dt = 6 \<or> weekday dt = 0)
   \<and> wd_today dt = (let today = (weekday dt + 2) mod 7 in if today = 0 then 7 else today)
   \<and> wd_today dt = [2, 3, 4, 5, 6, 7, 1] ! nat (weekday dt)
   \<and> 0 \<le> weekday dt \<and> weekday dt < 7"
proof -
  define w where "w = weekday dt"
  have "0 \<le> w \<and> w < 7" unfolding w_def by (rule weekday_bounds)
  then have w: "w = 0 \<or> w = 1 \<or> w = 2 \<or> w = 3 \<or> w = 4 \<or> w = 5 \<or> w = 6" by arith
  have t: "wd_today dt = [2, 3, 4, 5, 6, 7, 1] ! nat w"
    unfolding w_def by (rule wd_today_table)
  have "is_in_range (wd_today dt) 6 (Some 2) = (w = 4 \<or> w = 5 \<or> w = 6 \<or> w = 0)"
    using w unfolding t by (elim disjE) (simp_all add: is_in_range_def)
  then show ?thesis
    using weekday_bounds [of dt] wd_today_table [of dt]
    by (simp add: in_period_wd_fr_mo w_def wd_today_def)
qed

theorem weekday_fr_mo_witness:
  "in_period ''wd {fr-mo}'' \<lparr>year = 2014, month = 2, day = 14, hour = 12, minute = 5, second = 0\<rparr>
     = Inr True
   \<and> in_period ''wd {fr-mo}'' \<lparr>year = 2014, month = 2, day = 11, hour = 12, minute = 5, second = 0\<rparr>
     = Inr False
   \<and> weekday \<lparr>year = 2014, month = 2, day = 14, hour = 12, minute = 5, second = 0\<rparr> = 4
   \<and> weekday \<lparr>year = 2014, month = 2, day = 11, hour = 12, minute = 5, second = 0\<rparr> = 1"
proof -
  have a: "weekday \<lparr>year = 2014, month = 2, day = 14, hour = 12, minute = 5, second = 0\<rparr> = 4"
    by (simp add: weekday_def toordinal_def yday_def days_before_year_def
        days_before_month_def days_in_month_def is_leap_def upt_conv_Cons)
  have b: "weekday \<lparr>year = 2014, month = 2, day = 11, hour = 12, minute = 5, second = 0\<rparr> = 1"
    by (simp add: weekday_def toordinal_def yday_def days_before_year_def
        days_before_month_def days_in_month_def is_leap_def upt_conv_Cons)
  show ?thesis
    using weekday_fr_mo [of "\<lparr>year = 2014, month = 2, day = 14, hour = 12, minute = 5, second = 0\<rparr>"]
      weekday_fr_mo [of "\<lparr>year = 2014, month = 2, day = 11, hour = 12, minute = 5, second = 0\<rparr>"]
      a b
    by simp
qed

text \<open>
  Claim C5. At every timestamp \<^verbatim>\<open>mo {jan-mar}\<close> gives what \<^verbatim>\<open>mo {1-3}\<close> gives, which
  is whether the month lies between 1 and 3. Each of the twelve month names, taken as a
  range, is read as its number is.
\<close>

theorem month_names:
  "in_period ''mo {jan-mar}'' dt = in_period ''mo {1-3}'' dt
   \<and> in_period ''mo {jan-mar}'' dt = Inr (1 \<le> month dt \<and> month dt \<le> 3)
   \<and> list_all (\<lambda>(name, code). mo_bounds name = mo_bounds (str_int code)) MONTHS"
proof -
  have "list_all (\<lambda>(name, code). mo_bounds name = mo_bounds (str_int code)) MONTHS"
    by (simp add: bounds_eval int_eval char_eval)
  then show ?thesis
    by (auto simp: in_period_mo_jan_mar in_period_mo_1_3 is_in_range_def)
qed

theorem month_names_witness:
  "in_period ''mo {jan-mar}'' \<lparr>year = 2014, month = 2, day = 11, hour = 12, minute = 5, second = 0\<rparr>
     = Inr True
   \<and> in_period ''mo {1-3}'' \<lparr>year = 2014, month = 2, day = 11, hour = 12, minute = 5, second = 0\<rparr>
     = Inr True"
  using month_names [of "\<lparr>year = 2014, month = 2, day = 11, hour = 12, minute = 5, second = 0\<rparr>"]
  by auto





lemma not_word_brace: "\<not> is_word (CHR ''{'')"
  by (simp add: is_word_def)

lemma match_here_shape:
  assumes "w \<noteq> []" and "\<forall>c \<in> set w. is_word c" and "CHR 0x0A \<notin> set body"
  shows "\<exists>m. match_here (w @ CHR ''{'' # body @ CHR ''}'' # post) = Some m"
proof -
  let ?s = "w @ CHR ''{'' # body @ CHR ''}'' # post"
  have t: "takeWhile is_word ?s = w"
    using assms(2) not_word_brace by (simp add: takeWhile_append2)
  have d: "dropWhile is_word ?s = CHR ''{'' # body @ CHR ''}'' # post"
    using assms(2) not_word_brace by (simp add: dropWhile_append2)
  have r: "dropWhile (\<lambda>c. c \<noteq> CHR ''}'') (body @ CHR ''}'' # post) \<noteq> []"
    by (simp add: dropWhile_eq_Nil_conv)
  have "set (takeWhile (\<lambda>c. c \<noteq> CHR ''}'') (body @ CHR ''}'' # post)) \<subseteq> set body"
    by (induction body) auto
  then have n: "CHR 0x0A \<notin> set (takeWhile (\<lambda>c. c \<noteq> CHR ''}'') (body @ CHR ''}'' # post))"
    using assms(3) by blast
  show ?thesis
    using assms(1) r n by (simp add: match_here_def t d del: takeWhile_append dropWhile_append)
qed

text \<open>
  Claim C10. Parsing a scale expression ignores what stands around the scale test:
  characters in front that are no word characters change nothing in the result, and the
  search succeeds on every text that holds, anywhere, word characters followed by a body
  in braces (a body that the pattern \<^verbatim>\<open>.*?\<close> can match holds no newline). At every
  timestamp \<^verbatim>\<open>#hr {12}\<close> gives what \<^verbatim>\<open>hr {12}\<close> gives.
\<close>

theorem lenient_parse:
  "((\<forall>c \<in> set junk. \<not> is_word c) \<longrightarrow> parse_scale (junk @ s) = parse_scale s)
   \<and> (w \<noteq> [] \<and> (\<forall>c \<in> set w. is_word c) \<and> CHR 0x0A \<notin> set body \<longrightarrow>
        (\<exists>m. re_search (pre @ w @ CHR ''{'' # body @ CHR ''}'' # post) = Some m))
   \<and> in_period ''#hr {12}'' dt = in_period ''hr {12}'' dt"
proof -
  have a: "(\<forall>c \<in> set junk. \<not> is_word c) \<longrightarrow> parse_scale (junk @ s) = parse_scale s"
    by (simp add: parse_scale_def re_search_skip)
  have b: "w \<noteq> [] \<and> (\<forall>c \<in> set w. is_word c) \<and> CHR 0x0A \<notin> set body \<longrightarrow>
        (\<exists>m. re_search (pre @ w @ CHR ''{'' # body @ CHR ''}'' # post) = Some m)"
  proof (intro impI, elim conjE)
    assume "w \<noteq> []" and "\<forall>c \<in> set w. is_word c" and "CHR 0x0A \<notin> set body"
    then obtain m where "match_here (w @ CHR ''{'' # body @ CHR ''}'' # post) = Some m"
      using match_here_shape by blast
    then show "\<exists>m. re_search (pre @ w @ CHR ''{'' # body @ CHR ''}'' # post) = Some m"
      by (rule re_search_found)
  qed
  have c: "in_period ''#hr {12}'' dt = in_period ''hr {12}'' dt"
    by (simp add: in_period_hr_12 in_period_junk_hr_12)
  from a b c show ?thesis by blast
qed

theorem lenient_parse_witness:
  "parse_scale ''#hr{12}'' = parse_scale ''hr{12}''
   \<and> parse_scale ''hr{12}'' = Inr (''hr'', [''12''])
   \<and> re_search ''# hr{12}junk'' = Some (''hr'', ''12'')
   \<and> in_period ''#hr {12}'' \<lparr>year = 2014, month = 2, day = 11, hour = 12, minute = 5, second = 0\<rparr>
       = Inr True
   \<and> in_period ''hr {12}'' \<lparr>year = 2014, month = 2, day = 11, hour = 12, minute = 5, second = 0\<rparr>
       = Inr True"
proof -
  let ?dt = "\<lparr>year = 2014, month = 2, day = 11, hour = 12, minute = 5, second = 0\<rparr>"
  have j: "\<forall>c \<in> set ''#''. \<not> is_word c"
    by (simp add: is_word_def)
  have w: "''hr'' \<noteq> [] \<and> (\<forall>c \<in> set ''hr''. is_word c) \<and> CHR 0x0A \<notin> set ''12''"
    by (simp add: is_word_def)
  have p: "parse_scale ''hr{12}'' = Inr (''hr'', [''12''])"
    by (simp add: parse_eval)
  have r: "re_search ''# hr{12}junk'' = Some (''hr'', ''12'')"
    by (simp add: parse_eval)
  have h: "in_period ''hr {12}'' ?dt = Inr True"
    by (simp add: in_period_hr_12 is_in_range_def)
  show ?thesis
    using lenient_parse [of "''#''" "''hr{12}''" "''hr''" "''12''" "''# ''" "''junk''" ?dt]
      j w p r h
    by simp
qed

subsection \<open>Sub-periods and errors\<close>


lemma scan_False: "(scan f xs = Inr False) = (\<forall>x \<in> set xs. f x = Inr False)"
  by (induction xs) (auto split: sum.splits)
























section \<open>The normalizer on its own result\<close>

lemma adj_Cons: "adj R (a # s) = (s = [] \<or> (R a (hd s) \<and> adj R s))"
  by (cases s) auto

lemma adj_dropWhile: "adj R s \<Longrightarrow> adj R (dropWhile P s)"
  by (induction R s rule: adj.induct) auto

lemma adj_tl: "adj R s \<Longrightarrow> adj R (tl s)"
  by (cases s) (auto simp: adj_Cons)

lemma dropWhile_hd: "dropWhile P s \<noteq> [] \<Longrightarrow> \<not> P (hd (dropWhile P s))"
  by (metis hd_dropWhile)

lemma dropWhile_last:
  "s \<noteq> [] \<Longrightarrow> \<not> P (last s) \<Longrightarrow> dropWhile P s \<noteq> [] \<and> last (dropWhile P s) = last s"
  by (induction s) (auto split: if_splits)

lemma run_pair:
  "is_space c \<Longrightarrow> adj R (c # cs) \<Longrightarrow> dropWhile is_space cs \<noteq> [] \<Longrightarrow>
     \<exists>w. is_space w \<and> R w (hd (dropWhile is_space cs))"
proof (induction cs arbitrary: c)
  case Nil
  then show ?case by simp
next
  case (Cons d ds)
  show ?case
  proof (cases "is_space d")
    case True
    have "adj R (d # ds)" using Cons.prems(2) by simp
    moreover have "dropWhile is_space ds \<noteq> []" using Cons.prems(3) True by simp
    ultimately have "\<exists>w. is_space w \<and> R w (hd (dropWhile is_space ds))"
      using Cons.IH True by blast
    then show ?thesis using True by simp
  next
    case False
    then show ?thesis using Cons.prems by auto
  qed
qed

subsection \<open>Whitespace after a mark\<close>

lemma after_Nil: "(drop_space_after a s = []) = (s = [])"
  by (cases s) auto

lemma after_hd: "hd (drop_space_after a s) = hd s"
  by (cases s) auto

lemma after_last:
  "s \<noteq> [] \<Longrightarrow> \<not> is_space (last s) \<Longrightarrow> last (drop_space_after a s) = last s"
proof (induction a s rule: drop_space_after.induct)
  case (1 a)
  then show ?case by simp
next
  case (2 a c cs)
  show ?case
  proof (cases "cs = []")
    case True
    then show ?thesis by simp
  next
    case False
    then have l: "\<not> is_space (last cs)" using "2.prems" by simp
    show ?thesis
    proof (cases "c = a")
      case True
      define x where "x = dropWhile is_space cs"
      have d: "x \<noteq> [] \<and> last x = last cs"
        unfolding x_def using False l by (rule dropWhile_last)
      then have "last (drop_space_after a x) = last cs"
        using "2.IH"(1) [OF True] l unfolding x_def by simp
      moreover have e: "drop_space_after a (c # cs) = a # drop_space_after a x"
        using True by (simp add: x_def)
      ultimately show ?thesis unfolding e using False d by (simp add: after_Nil)
    next
      case c: False
      then show ?thesis using "2.IH"(2) False l by (simp add: after_Nil)
    qed
  qed
qed

lemma after_keeps:
  "keeps_plain R \<Longrightarrow> \<not> is_space a \<Longrightarrow> adj R s \<Longrightarrow> adj R (drop_space_after a s)"
proof (induction a s rule: drop_space_after.induct)
  case (1 a)
  show ?case by simp
next
  case (2 a c cs)
  have t: "adj R cs" using adj_tl [OF "2.prems"(3)] by simp
  show ?case
  proof (cases "c = a")
    case True
    define x where "x = dropWhile is_space cs"
    have "adj R x" unfolding x_def using t by (rule adj_dropWhile)
    then have i: "adj R (drop_space_after a x)"
      using "2.IH"(1) [OF True] "2.prems" unfolding x_def by simp
    have "x \<noteq> [] \<longrightarrow> \<not> is_space (hd x)"
      unfolding x_def using dropWhile_hd [of is_space cs] by blast
    then have "x \<noteq> [] \<longrightarrow> R a (hd x)"
      using "2.prems"(1,2) by (simp add: keeps_plain_def)
    moreover have e: "drop_space_after a (c # cs) = a # drop_space_after a x"
      using True by (simp add: x_def)
    ultimately show ?thesis unfolding e using i by (auto simp: adj_Cons after_Nil after_hd)
  next
    case False
    have "adj R (drop_space_after a cs)" using "2.IH"(2) False "2.prems" t by simp
    then show ?thesis using False "2.prems"(3) by (auto simp: adj_Cons after_Nil after_hd)
  qed
qed

lemma after_makes:
  "adj (\<lambda>x y. \<not> (x = a \<and> is_space y)) (drop_space_after a s)"
proof (induction a s rule: drop_space_after.induct)
  case (1 a)
  show ?case by simp
next
  case (2 a c cs)
  show ?case
  proof (cases "c = a")
    case True
    define x where "x = dropWhile is_space cs"
    have "x \<noteq> [] \<longrightarrow> \<not> is_space (hd x)"
      unfolding x_def using dropWhile_hd [of is_space cs] by blast
    moreover have "adj (\<lambda>x y. \<not> (x = a \<and> is_space y)) (drop_space_after a x)"
      using "2.IH"(1) [OF True] by (simp add: x_def)
    moreover have e: "drop_space_after a (c # cs) = a # drop_space_after a x"
      using True by (simp add: x_def)
    ultimately show ?thesis unfolding e by (auto simp: adj_Cons after_Nil after_hd)
  next
    case False
    then show ?thesis using "2.IH"(2) by (auto simp: adj_Cons)
  qed
qed

lemma after_fix:
  "adj (\<lambda>x y. \<not> (x = a \<and> is_space y)) s \<Longrightarrow> drop_space_after a s = s"
proof (induction a s rule: drop_space_after.induct)
  case (1 a)
  show ?case by simp
next
  case (2 a c cs)
  have t: "adj (\<lambda>x y. \<not> (x = a \<and> is_space y)) cs"
    using adj_tl [OF "2.prems"] by simp
  show ?case
  proof (cases "c = a")
    case True
    then have "cs = [] \<or> \<not> is_space (hd cs)" using "2.prems" by (auto simp: adj_Cons)
    then have "dropWhile is_space cs = cs" by (cases cs) auto
    then show ?thesis using "2.IH"(1) [OF True] t True by simp
  next
    case False
    then show ?thesis using "2.IH"(2) t by simp
  qed
qed

subsection \<open>Whitespace around a mark\<close>

lemma around_match:
  assumes r: "r = dropWhile is_space (c # cs)" and "r \<noteq> []" and "hd r = a"
  shows "drop_space_around a (c # cs) = a # drop_space_around a (dropWhile is_space (tl r))"
proof -
  have "drop_space_around a (c # cs) =
      (if r \<noteq> [] \<and> hd r = a then a # drop_space_around a (dropWhile is_space (tl r))
       else c # drop_space_around a cs)"
    by (simp only: drop_space_around.simps Let_def r [symmetric])
  then show ?thesis using assms(2,3) by simp
qed

lemma around_other:
  assumes r: "r = dropWhile is_space (c # cs)" and "\<not> (r \<noteq> [] \<and> hd r = a)"
  shows "drop_space_around a (c # cs) = c # drop_space_around a cs"
proof -
  have "drop_space_around a (c # cs) =
      (if r \<noteq> [] \<and> hd r = a then a # drop_space_around a (dropWhile is_space (tl r))
       else c # drop_space_around a cs)"
    by (simp only: drop_space_around.simps Let_def r [symmetric])
  then show ?thesis using assms(2) by simp
qed

lemma around_Nil: "(drop_space_around a s = []) = (s = [])"
  by (cases s) (simp_all add: Let_def)

lemma around_hd:
  "hd (drop_space_around a s) =
     (if dropWhile is_space s \<noteq> [] \<and> hd (dropWhile is_space s) = a then a else hd s)"
  by (cases s) (simp_all add: Let_def)

lemma around_last:
  "s \<noteq> [] \<Longrightarrow> \<not> is_space (last s) \<Longrightarrow> last (drop_space_around a s) = last s"
proof (induction a s rule: drop_space_around.induct)
  case (1 a)
  then show ?case by simp
next
  case (2 a c cs)
  define r where "r = dropWhile is_space (c # cs)"
  define x where "x = dropWhile is_space (tl r)"
  have r: "r \<noteq> [] \<and> last r = last (c # cs)"
    unfolding r_def using "2.prems" by (intro dropWhile_last) simp_all
  show ?case
  proof (cases "r \<noteq> [] \<and> hd r = a")
    case True
    from True have "r \<noteq> []" and "hd r = a" by blast+
    from around_match [OF r_def this]
    have e: "drop_space_around a (c # cs) = a # drop_space_around a x"
      unfolding x_def .
    show ?thesis
    proof (cases "tl r = []")
      case tl: True
      then have "r = [a]" using True by (cases r) auto
      moreover have "x = []" using tl by (simp add: x_def)
      ultimately show ?thesis unfolding e using r by simp
    next
      case tl: False
      then have l: "last (tl r) = last (c # cs)" using r by (cases r) auto
      then have n: "\<not> is_space (last (tl r))" using "2.prems" by simp
      have d: "x \<noteq> [] \<and> last x = last (tl r)"
        unfolding x_def using tl n by (rule dropWhile_last)
      have "last (drop_space_around a x) = last x"
        using "2.IH"(1) [OF r_def True] d n unfolding x_def by simp
      then show ?thesis unfolding e using d l by (simp add: around_Nil)
    qed
  next
    case False
    from around_other [OF r_def False]
    have e: "drop_space_around a (c # cs) = c # drop_space_around a cs" .
    show ?thesis
    proof (cases "cs = []")
      case True
      then show ?thesis unfolding e by simp
    next
      case cs: False
      then have "last (drop_space_around a cs) = last cs"
        using "2.IH"(2) [OF r_def False] "2.prems" by simp
      then show ?thesis unfolding e using cs by (simp add: around_Nil)
    qed
  qed
qed

lemma around_keeps:
  "keeps_plain R \<Longrightarrow> \<not> is_space a \<Longrightarrow> adj R s \<Longrightarrow> adj R (drop_space_around a s)"
proof (induction a s rule: drop_space_around.induct)
  case (1 a)
  show ?case by simp
next
  case (2 a c cs)
  define r where "r = dropWhile is_space (c # cs)"
  define x where "x = dropWhile is_space (tl r)"
  define y where "y = dropWhile is_space cs"
  show ?case
  proof (cases "r \<noteq> [] \<and> hd r = a")
    case True
    from True have "r \<noteq> []" and "hd r = a" by blast+
    from around_match [OF r_def this]
    have e: "drop_space_around a (c # cs) = a # drop_space_around a x"
      unfolding x_def .
    have "adj R r" unfolding r_def using "2.prems"(3) by (rule adj_dropWhile)
    then have "adj R (tl r)" by (rule adj_tl)
    then have "adj R x" unfolding x_def by (rule adj_dropWhile)
    then have i: "adj R (drop_space_around a x)"
      using "2.IH"(1) [OF r_def True] "2.prems"(1,2) unfolding x_def by simp
    have "x \<noteq> [] \<longrightarrow> \<not> is_space (hd x)"
      unfolding x_def using dropWhile_hd [of is_space "tl r"] by blast
    then have "x \<noteq> [] \<longrightarrow> \<not> is_space (hd (drop_space_around a x))"
      using "2.prems"(2) by (simp add: around_hd)
    then have "x \<noteq> [] \<longrightarrow> R a (hd (drop_space_around a x))"
      using "2.prems"(1,2) by (simp add: keeps_plain_def)
    then show ?thesis unfolding e using i by (auto simp: adj_Cons around_Nil)
  next
    case False
    from around_other [OF r_def False]
    have e: "drop_space_around a (c # cs) = c # drop_space_around a cs" .
    have t: "adj R cs" using adj_tl [OF "2.prems"(3)] by simp
    have i: "adj R (drop_space_around a cs)"
      using "2.IH"(2) [OF r_def False] "2.prems"(1,2) t by simp
    have "cs \<noteq> [] \<longrightarrow> R c (hd (drop_space_around a cs))"
    proof
      assume cs: "cs \<noteq> []"
      show "R c (hd (drop_space_around a cs))"
      proof (cases "y \<noteq> [] \<and> hd y = a")
        case True
        have "\<not> is_space c"
        proof
          assume "is_space c"
          then have "r = y" by (simp add: r_def y_def)
          then show False using True False by simp
        qed
        moreover have "hd (drop_space_around a cs) = a"
          using True by (auto simp: around_hd y_def)
        ultimately show ?thesis using "2.prems"(1,2) by (simp add: keeps_plain_def)
      next
        case n: False
        then have "hd (drop_space_around a cs) = hd cs"
          by (auto simp: around_hd y_def)
        then show ?thesis using "2.prems"(3) cs by (auto simp: adj_Cons)
      qed
    qed
    then show ?thesis unfolding e using i by (auto simp: adj_Cons around_Nil)
  qed
qed

lemma around_makes:
  "\<not> is_space a \<Longrightarrow>
   adj (\<lambda>x y. \<not> (is_space x \<and> y = a) \<and> \<not> (x = a \<and> is_space y)) (drop_space_around a s)"
proof (induction a s rule: drop_space_around.induct)
  case (1 a)
  show ?case by simp
next
  case (2 a c cs)
  let ?Q = "\<lambda>x y. \<not> (is_space x \<and> y = a) \<and> \<not> (x = a \<and> is_space y)"
  define r where "r = dropWhile is_space (c # cs)"
  define x where "x = dropWhile is_space (tl r)"
  define y where "y = dropWhile is_space cs"
  show ?case
  proof (cases "r \<noteq> [] \<and> hd r = a")
    case True
    from True have "r \<noteq> []" and "hd r = a" by blast+
    from around_match [OF r_def this]
    have e: "drop_space_around a (c # cs) = a # drop_space_around a x"
      unfolding x_def .
    have i: "adj ?Q (drop_space_around a x)"
      using "2.IH"(1) [OF r_def True] "2.prems" unfolding x_def by simp
    have "x \<noteq> [] \<longrightarrow> \<not> is_space (hd x)"
      unfolding x_def using dropWhile_hd [of is_space "tl r"] by blast
    then have "x \<noteq> [] \<longrightarrow> \<not> is_space (hd (drop_space_around a x))"
      using "2.prems" by (simp add: around_hd)
    then show ?thesis unfolding e using i "2.prems" by (auto simp: adj_Cons around_Nil)
  next
    case False
    from around_other [OF r_def False]
    have e: "drop_space_around a (c # cs) = c # drop_space_around a cs" .
    have i: "adj ?Q (drop_space_around a cs)"
      using "2.IH"(2) [OF r_def False] "2.prems" by simp
    have ca: "c \<noteq> a"
    proof
      assume "c = a"
      then have "r = c # cs" using "2.prems" by (simp add: r_def)
      then show False using False \<open>c = a\<close> by simp
    qed
    have "cs \<noteq> [] \<longrightarrow> \<not> (is_space c \<and> hd (drop_space_around a cs) = a)"
    proof (intro impI notI, elim conjE)
      assume cs: "cs \<noteq> []" and c: "is_space c" and h: "hd (drop_space_around a cs) = a"
      have ry: "r = y" using c by (simp add: r_def y_def)
      have "y \<noteq> [] \<and> hd y = a"
      proof (rule ccontr)
        assume n: "\<not> (y \<noteq> [] \<and> hd y = a)"
        then have "hd cs = a" using h by (auto simp: around_hd y_def)
        then have "y = cs" using cs "2.prems" by (cases cs) (auto simp: y_def)
        then show False using n cs \<open>hd cs = a\<close> by simp
      qed
      then show False using ry False by simp
    qed
    then show ?thesis unfolding e using i ca by (auto simp: adj_Cons around_Nil)
  qed
qed

lemma around_fix:
  "\<not> is_space a \<Longrightarrow>
   adj (\<lambda>x y. \<not> (is_space x \<and> y = a) \<and> \<not> (x = a \<and> is_space y)) s \<Longrightarrow>
   drop_space_around a s = s"
proof (induction a s rule: drop_space_around.induct)
  case (1 a)
  show ?case by simp
next
  case (2 a c cs)
  let ?Q = "\<lambda>x y. \<not> (is_space x \<and> y = a) \<and> \<not> (x = a \<and> is_space y)"
  define r where "r = dropWhile is_space (c # cs)"
  have t: "adj ?Q cs" using adj_tl [OF "2.prems"(2)] by simp
  show ?case
  proof (cases "r \<noteq> [] \<and> hd r = a")
    case True
    have nc: "\<not> is_space c"
    proof
      assume c: "is_space c"
      then have ry: "r = dropWhile is_space cs" by (simp add: r_def)
      then have "dropWhile is_space cs \<noteq> []" using True by simp
      from run_pair [OF c "2.prems"(2) this]
      show False using True ry by auto
    qed
    then have rc: "r = c # cs" by (simp add: r_def)
    then have ca: "c = a" using True by simp
    have "cs = [] \<or> \<not> is_space (hd cs)" using "2.prems"(2) ca by (auto simp: adj_Cons)
    then have d: "dropWhile is_space cs = cs" by (cases cs) auto
    have "drop_space_around a (dropWhile is_space (tl r)) = dropWhile is_space (tl r)"
      using "2.IH"(1) [OF r_def True] "2.prems"(1) t rc d by simp
    then have "drop_space_around a cs = cs" using rc d by simp
    moreover have "drop_space_around a (c # cs) = a # drop_space_around a cs"
    proof -
      from True have "r \<noteq> []" and "hd r = a" by blast+
      from around_match [OF r_def this]
      have "drop_space_around a (c # cs)
          = a # drop_space_around a (dropWhile is_space (tl r))" .
      then show ?thesis using rc d by simp
    qed
    ultimately show ?thesis using ca by simp
  next
    case False
    from around_other [OF r_def False]
    have e: "drop_space_around a (c # cs) = c # drop_space_around a cs" .
    show ?thesis unfolding e using "2.IH"(2) [OF r_def False] "2.prems"(1) t by simp
  qed
qed

subsection \<open>Whitespace before a brace\<close>

lemma before_drop:
  assumes "is_space c" and r: "r = dropWhile is_space cs" and "r = [] \<or> hd r = CHR ''{''"
  shows "drop_space_before_brace (c # cs) = drop_space_before_brace r"
proof -
  have "drop_space_before_brace (c # cs) =
      (if r = [] \<or> hd r = CHR ''{'' then drop_space_before_brace r
       else c # drop_space_before_brace cs)"
    using assms(1) by (simp only: drop_space_before_brace.simps Let_def r [symmetric] if_True)
  then show ?thesis using assms(3) by simp
qed

lemma before_keep_space:
  assumes "is_space c" and r: "r = dropWhile is_space cs"
    and "\<not> (r = [] \<or> hd r = CHR ''{'')"
  shows "drop_space_before_brace (c # cs) = c # drop_space_before_brace cs"
proof -
  have "drop_space_before_brace (c # cs) =
      (if r = [] \<or> hd r = CHR ''{'' then drop_space_before_brace r
       else c # drop_space_before_brace cs)"
    using assms(1) by (simp only: drop_space_before_brace.simps Let_def r [symmetric] if_True)
  then show ?thesis using assms(3) by simp
qed

lemma before_keep:
  "\<not> is_space c \<Longrightarrow> drop_space_before_brace (c # cs) = c # drop_space_before_brace cs"
  by simp

lemma not_space_brace: "\<not> is_space (CHR ''{'')"
  by (simp add: is_space_def)

text \<open>When the whitespace at the head of a text does not go, the head stays.\<close>

lemma before_hd_kept:
  assumes "\<not> (dropWhile is_space t = [] \<or> hd (dropWhile is_space t) = CHR ''{'')"
  shows "drop_space_before_brace t \<noteq> [] \<and> hd (drop_space_before_brace t) = hd t"
proof (cases t)
  case Nil
  then show ?thesis using assms by simp
next
  case (Cons d ds)
  show ?thesis
  proof (cases "is_space d")
    case True
    define r where "r = dropWhile is_space ds"
    have "\<not> (r = [] \<or> hd r = CHR ''{'')"
      using assms Cons True unfolding r_def by simp
    from before_keep_space [OF True r_def this] show ?thesis using Cons by simp
  next
    case False
    then show ?thesis using Cons by simp
  qed
qed

lemma before_hd:
  "drop_space_before_brace t \<noteq> [] \<Longrightarrow>
     hd (drop_space_before_brace t) = hd t \<or> hd (drop_space_before_brace t) = CHR ''{''"
proof (cases t)
  case Nil
  then show ?thesis by simp
next
  case (Cons d ds)
  assume n: "drop_space_before_brace t \<noteq> []"
  show ?thesis
  proof (cases "is_space d")
    case True
    define r where "r = dropWhile is_space ds"
    show ?thesis
    proof (cases "r = [] \<or> hd r = CHR ''{''")
      case dr: True
      from before_drop [OF True r_def dr]
      have e: "drop_space_before_brace t = drop_space_before_brace r" using Cons by simp
      then have "r \<noteq> []" using n by auto
      then obtain rs where "r = CHR ''{'' # rs" using dr by (cases r) auto
      then show ?thesis using e not_space_brace by simp
    next
      case False
      from before_keep_space [OF True r_def False] show ?thesis using Cons by simp
    qed
  next
    case False
    then show ?thesis using Cons by simp
  qed
qed

lemma before_last:
  "s \<noteq> [] \<Longrightarrow> \<not> is_space (last s) \<Longrightarrow>
     drop_space_before_brace s \<noteq> [] \<and> last (drop_space_before_brace s) = last s"
proof (induction s rule: drop_space_before_brace.induct)
  case 1
  then show ?case by simp
next
  case (2 c cs)
  define r where "r = dropWhile is_space cs"
  show ?case
  proof (cases "is_space c")
    case True
    then have cs: "cs \<noteq> []" using "2.prems" by auto
    then have l: "\<not> is_space (last cs)" using "2.prems" by simp
    have d: "r \<noteq> [] \<and> last r = last cs"
      unfolding r_def using cs l by (rule dropWhile_last)
    show ?thesis
    proof (cases "r = [] \<or> hd r = CHR ''{''")
      case dr: True
      have "drop_space_before_brace r \<noteq> [] \<and> last (drop_space_before_brace r) = last r"
        using "2.IH"(1) [OF True r_def dr] d l by simp
      then show ?thesis unfolding before_drop [OF True r_def dr] using d cs by simp
    next
      case False
      have "drop_space_before_brace cs \<noteq> [] \<and> last (drop_space_before_brace cs) = last cs"
        using "2.IH"(2) [OF True r_def False] cs l by simp
      then show ?thesis unfolding before_keep_space [OF True r_def False] using cs by simp
    qed
  next
    case False
    show ?thesis
    proof (cases "cs = []")
      case True
      then show ?thesis using False by simp
    next
      case cs: False
      then have "drop_space_before_brace cs \<noteq> [] \<and> last (drop_space_before_brace cs) = last cs"
        using "2.IH"(3) [OF False] "2.prems" by simp
      then show ?thesis using False cs by simp
    qed
  qed
qed

lemma before_keeps:
  "keeps_plain R \<Longrightarrow> adj R s \<Longrightarrow> adj R (drop_space_before_brace s)"
proof (induction s rule: drop_space_before_brace.induct)
  case 1
  show ?case by simp
next
  case (2 c cs)
  define r where "r = dropWhile is_space cs"
  have t: "adj R cs" using adj_tl [OF "2.prems"(2)] by simp
  show ?case
  proof (cases "is_space c")
    case True
    show ?thesis
    proof (cases "r = [] \<or> hd r = CHR ''{''")
      case dr: True
      have "adj R r" unfolding r_def using t by (rule adj_dropWhile)
      then show ?thesis
        unfolding before_drop [OF True r_def dr]
        using "2.IH"(1) [OF True r_def dr] "2.prems"(1) by simp
    next
      case False
      have i: "adj R (drop_space_before_brace cs)"
        using "2.IH"(2) [OF True r_def False] "2.prems"(1) t by simp
      have "\<not> (dropWhile is_space cs = [] \<or> hd (dropWhile is_space cs) = CHR ''{'')"
        using False unfolding r_def .
      from before_hd_kept [OF this]
      have h: "drop_space_before_brace cs \<noteq> [] \<and> hd (drop_space_before_brace cs) = hd cs" .
      then have "cs \<noteq> []" by auto
      then have "R c (hd cs)" using "2.prems"(2) by (auto simp: adj_Cons)
      then show ?thesis
        unfolding before_keep_space [OF True r_def False] using i h by (auto simp: adj_Cons)
    qed
  next
    case False
    have i: "adj R (drop_space_before_brace cs)"
      using "2.IH"(3) [OF False] "2.prems"(1) t by simp
    have "drop_space_before_brace cs \<noteq> [] \<longrightarrow> R c (hd (drop_space_before_brace cs))"
    proof
      assume n: "drop_space_before_brace cs \<noteq> []"
      then have cs: "cs \<noteq> []" by auto
      from before_hd [OF n] show "R c (hd (drop_space_before_brace cs))"
      proof
        assume "hd (drop_space_before_brace cs) = hd cs"
        then show ?thesis using "2.prems"(2) cs by (auto simp: adj_Cons)
      next
        assume "hd (drop_space_before_brace cs) = CHR ''{''"
        then show ?thesis
          using "2.prems"(1) False not_space_brace by (simp add: keeps_plain_def)
      qed
    qed
    then show ?thesis unfolding before_keep [OF False] using i by (auto simp: adj_Cons)
  qed
qed

lemma before_makes:
  "adj (\<lambda>x y. \<not> (is_space x \<and> y = CHR ''{'')) (drop_space_before_brace s)"
proof (induction s rule: drop_space_before_brace.induct)
  case 1
  show ?case by simp
next
  case (2 c cs)
  define r where "r = dropWhile is_space cs"
  show ?case
  proof (cases "is_space c")
    case True
    show ?thesis
    proof (cases "r = [] \<or> hd r = CHR ''{''")
      case dr: True
      show ?thesis
        unfolding before_drop [OF True r_def dr] using "2.IH"(1) [OF True r_def dr] .
    next
      case False
      have "\<not> (dropWhile is_space cs = [] \<or> hd (dropWhile is_space cs) = CHR ''{'')"
        using False unfolding r_def .
      from before_hd_kept [OF this]
      have h: "drop_space_before_brace cs \<noteq> [] \<and> hd (drop_space_before_brace cs) = hd cs" .
      have "hd cs \<noteq> CHR ''{''"
      proof
        assume b: "hd cs = CHR ''{''"
        have "cs \<noteq> []" using h by auto
        then have "r = cs" using b not_space_brace by (cases cs) (auto simp: r_def)
        then show False using False b by simp
      qed
      then show ?thesis
        unfolding before_keep_space [OF True r_def False]
        using "2.IH"(2) [OF True r_def False] h by (auto simp: adj_Cons)
    qed
  next
    case False
    then show ?thesis
      unfolding before_keep [OF False] using "2.IH"(3) [OF False] by (auto simp: adj_Cons)
  qed
qed

lemma before_fix:
  "adj (\<lambda>x y. \<not> (is_space x \<and> y = CHR ''{'')) s \<Longrightarrow> s = [] \<or> \<not> is_space (last s) \<Longrightarrow>
     drop_space_before_brace s = s"
proof (induction s rule: drop_space_before_brace.induct)
  case 1
  show ?case by simp
next
  case (2 c cs)
  define r where "r = dropWhile is_space cs"
  have t: "adj (\<lambda>x y. \<not> (is_space x \<and> y = CHR ''{'')) cs"
    using adj_tl [OF "2.prems"(1)] by simp
  have l: "cs = [] \<or> \<not> is_space (last cs)" using "2.prems"(2) by auto
  show ?case
  proof (cases "is_space c")
    case True
    have n: "\<not> (r = [] \<or> hd r = CHR ''{'')"
    proof
      assume "r = [] \<or> hd r = CHR ''{''"
      then show False
      proof
        assume "r = []"
        then have "\<forall>x \<in> set cs. is_space x" by (simp add: r_def)
        then have "is_space (last (c # cs))" using True by (cases "cs = []") auto
        then show False using "2.prems"(2) by simp
      next
        assume b: "hd r = CHR ''{''"
        show False
        proof (cases "r = []")
          case True
          then have "\<forall>x \<in> set cs. is_space x" by (simp add: r_def)
          then have "is_space (last (c # cs))" using \<open>is_space c\<close> by (cases "cs = []") auto
          then show False using "2.prems"(2) by simp
        next
          case False
          then have "dropWhile is_space cs \<noteq> []" unfolding r_def .
          from run_pair [OF True "2.prems"(1) this] show False using b r_def by auto
        qed
      qed
    qed
    show ?thesis
      unfolding before_keep_space [OF True r_def n]
      using "2.IH"(2) [OF True r_def n] t l by simp
  next
    case False
    show ?thesis unfolding before_keep [OF False] using "2.IH"(3) [OF False] t l by simp
  qed
qed

subsection \<open>Relations on adjacent characters\<close>

lemma adj_mono: "adj R s \<Longrightarrow> (\<And>x y. R x y \<Longrightarrow> R' x y) \<Longrightarrow> adj R' s"
  by (induction R s rule: adj.induct) auto

lemma adj_conj: "adj R s \<Longrightarrow> adj R' s \<Longrightarrow> adj (\<lambda>x y. R x y \<and> R' x y) s"
  by (induction R s rule: adj.induct) auto

lemma adj_map: "(\<And>x y. R x y \<Longrightarrow> R (f x) (f y)) \<Longrightarrow> adj R s \<Longrightarrow> adj R (map f s)"
  by (induction R s rule: adj.induct) auto

lemma adj_split:
  "adj R s = (\<forall>pre x y post. s = pre @ x # y # post \<longrightarrow> R x y)"
proof (induction R s rule: adj.induct)
  case (1 R)
  show ?case by simp
next
  case (2 R a)
  show ?case by (simp add: Cons_eq_append_conv)
next
  case (3 R a b s)
  have "(\<forall>pre x y post. a # b # s = pre @ x # y # post \<longrightarrow> R x y)
      = (R a b \<and> (\<forall>pre x y post. b # s = pre @ x # y # post \<longrightarrow> R x y))"
    (is "?L = ?R")
  proof
    assume l: ?L
    have "a # b # s = [] @ a # b # s" by simp
    then have "R a b" using l by blast
    moreover have "\<forall>pre x y post. b # s = pre @ x # y # post \<longrightarrow> R x y"
    proof (intro allI impI)
      fix pre x y post assume "b # s = pre @ x # y # post"
      then have "a # b # s = (a # pre) @ x # y # post" by simp
      then show "R x y" using l by blast
    qed
    ultimately show ?R by blast
  next
    assume r: ?R
    show ?L
    proof (intro allI impI)
      fix pre x y post assume d: "a # b # s = pre @ x # y # post"
      show "R x y"
      proof (cases pre)
        case Nil
        then show ?thesis using d r by simp
      next
        case (Cons p ps)
        then have "b # s = ps @ x # y # post" using d by simp
        then show ?thesis using r by blast
      qed
    qed
  qed
  then show ?case using 3 by simp
qed

subsection \<open>The ends\<close>

lemma strip_ends: "no_space_ends (strip s)"
proof -
  define t where "t = dropWhile is_space s"
  define u where "u = dropWhile is_space (rev t)"
  have e: "strip s = rev u" by (simp add: strip_def t_def u_def)
  show ?thesis
  proof (cases "u = []")
    case True
    then show ?thesis by (simp add: e no_space_ends_def)
  next
    case False
    then have h: "\<not> is_space (hd u)" unfolding u_def by (rule dropWhile_hd)
    have rt: "rev t \<noteq> []" using False by (auto simp: u_def)
    then have "t \<noteq> []" by simp
    then have "\<not> is_space (hd t)" unfolding t_def by (rule dropWhile_hd)
    then have "\<not> is_space (last (rev t))" using \<open>t \<noteq> []\<close> by (simp add: last_rev)
    with rt have "last u = last (rev t)" unfolding u_def using dropWhile_last by blast
    then have "\<not> is_space (last u)" using \<open>\<not> is_space (last (rev t))\<close> by simp
    then show ?thesis using False h by (simp add: e no_space_ends_def hd_rev last_rev)
  qed
qed

lemma strip_fix: "no_space_ends s \<Longrightarrow> strip s = s"
proof (cases "s = []")
  case True
  then show ?thesis by (simp add: strip_def)
next
  case False
  assume "no_space_ends s"
  then have h: "\<not> is_space (hd s)" and l: "\<not> is_space (last s)"
    using False by (simp_all add: no_space_ends_def)
  have a: "dropWhile is_space s = s" using False h by (cases s) auto
  have "\<not> is_space (hd (rev s))" using l False by (simp add: hd_rev)
  then have "dropWhile is_space (rev s) = rev s" using False by (cases "rev s") auto
  then show ?thesis by (simp add: strip_def a)
qed

lemma before_ends: "no_space_ends s \<Longrightarrow> no_space_ends (drop_space_before_brace s)"
proof (cases s)
  case Nil
  then show ?thesis by (simp add: no_space_ends_def)
next
  case (Cons c cs)
  assume "no_space_ends s"
  then have h: "\<not> is_space c" and l: "\<not> is_space (last s)"
    using Cons by (simp_all add: no_space_ends_def)
  have "s \<noteq> []" using Cons by simp
  from before_last [OF this l] show ?thesis
    using h l Cons by (simp add: no_space_ends_def)
qed

lemma after_ends: "no_space_ends s \<Longrightarrow> no_space_ends (drop_space_after a s)"
  by (auto simp: no_space_ends_def after_Nil after_hd after_last)

lemma around_ends:
  "\<not> is_space a \<Longrightarrow> no_space_ends s \<Longrightarrow> no_space_ends (drop_space_around a s)"
  by (auto simp: no_space_ends_def around_Nil around_hd around_last)

lemma insert_or_Nil: "(insert_or s = []) = (s = [])"
  by (cases s) auto

lemma insert_or_hd: "hd (insert_or s) = hd s"
  by (cases s) auto

lemma insert_or_last: "last (insert_or s) = last s"
  by (induction s) (auto simp: insert_or_Nil)

lemma insert_or_length: "length s \<le> length (insert_or s)"
  by (induction s) auto

subsection \<open>The six passes\<close>

lemma normalize_six: "normalize s = lower (insert_or (six_passes s))"
  by (simp add: normalize_def six_passes_def)

lemma not_space_marks:
  "\<not> is_space (CHR '','')" "\<not> is_space (CHR ''-'')" "\<not> is_space (CHR ''{'')"
  "\<not> is_space (CHR ''}'')" "\<not> is_space (CHR ''|'')"
  by (simp_all add: is_space_def)

lemma six_passes_tidy: "tidy (six_passes s)"
proof -
  let ?Q2 = "\<lambda>x y. \<not> (is_space x \<and> y = CHR ''{'')"
  let ?Q3 = "\<lambda>x y. \<not> (x = CHR '','' \<and> is_space y)"
  let ?Q4 = "\<lambda>x y. \<not> (is_space x \<and> y = CHR ''-'') \<and> \<not> (x = CHR ''-'' \<and> is_space y)"
  let ?Q5 = "\<lambda>x y. \<not> (x = CHR ''{'' \<and> is_space y)"
  let ?Q6 = "\<lambda>x y. \<not> (is_space x \<and> y = CHR ''}'') \<and> \<not> (x = CHR ''}'' \<and> is_space y)"
  have k: "keeps_plain ?Q2" "keeps_plain ?Q3" "keeps_plain ?Q4" "keeps_plain ?Q5"
    by (simp_all add: keeps_plain_def)
  define s1 where "s1 = strip s"
  define s2 where "s2 = drop_space_before_brace s1"
  define s3 where "s3 = drop_space_after (CHR '','') s2"
  define s4 where "s4 = drop_space_around (CHR ''-'') s3"
  define s5 where "s5 = drop_space_after (CHR ''{'') s4"
  define s6 where "s6 = drop_space_around (CHR ''}'') s5"
  have e1: "no_space_ends s1" unfolding s1_def by (rule strip_ends)
  have e2: "no_space_ends s2" unfolding s2_def using e1 by (rule before_ends)
  have e3: "no_space_ends s3" unfolding s3_def using e2 by (rule after_ends)
  have e4: "no_space_ends s4" unfolding s4_def using not_space_marks(2) e3 by (rule around_ends)
  have e5: "no_space_ends s5" unfolding s5_def using e4 by (rule after_ends)
  have e6: "no_space_ends s6" unfolding s6_def using not_space_marks(4) e5 by (rule around_ends)
  have a2: "adj ?Q2 s2" unfolding s2_def by (rule before_makes)
  have a3: "adj ?Q2 s3" "adj ?Q3 s3"
    unfolding s3_def using a2 k not_space_marks after_keeps after_makes by blast+
  have a4: "adj ?Q2 s4" "adj ?Q3 s4" "adj ?Q4 s4"
    unfolding s4_def using a3 k not_space_marks(2) around_keeps around_makes by blast+
  have a5: "adj ?Q2 s5" "adj ?Q3 s5" "adj ?Q4 s5" "adj ?Q5 s5"
    unfolding s5_def using a4 k not_space_marks(3) after_keeps after_makes by blast+
  have a6: "adj ?Q2 s6" "adj ?Q3 s6" "adj ?Q4 s6" "adj ?Q5 s6" "adj ?Q6 s6"
    unfolding s6_def using a5 k not_space_marks(4) around_keeps around_makes by blast+
  have "adj (\<lambda>x y. ?Q2 x y \<and> (?Q3 x y \<and> (?Q4 x y \<and> (?Q5 x y \<and> ?Q6 x y)))) s6"
    by (intro adj_conj a6)
  then have "adj tidy_pair s6"
    by (rule adj_mono) (auto simp: tidy_pair_def)
  moreover have "six_passes s = s6"
    by (simp add: six_passes_def s1_def s2_def s3_def s4_def s5_def s6_def)
  ultimately show ?thesis using e6 by (simp add: tidy_def)
qed

lemma six_passes_fix: "tidy s \<Longrightarrow> six_passes s = s"
proof -
  assume t: "tidy s"
  then have a: "adj tidy_pair s" and e: "no_space_ends s" by (simp_all add: tidy_def)
  have 1: "strip s = s" using e by (rule strip_fix)
  have "adj (\<lambda>x y. \<not> (is_space x \<and> y = CHR ''{'')) s"
    using a by (rule adj_mono) (auto simp: tidy_pair_def)
  then have 2: "drop_space_before_brace s = s"
    using e by (intro before_fix) (auto simp: no_space_ends_def)
  have "adj (\<lambda>x y. \<not> (x = CHR '','' \<and> is_space y)) s"
    using a by (rule adj_mono) (auto simp: tidy_pair_def)
  then have 3: "drop_space_after (CHR '','') s = s" by (rule after_fix)
  have "adj (\<lambda>x y. \<not> (is_space x \<and> y = CHR ''-'') \<and> \<not> (x = CHR ''-'' \<and> is_space y)) s"
    using a by (rule adj_mono) (auto simp: tidy_pair_def)
  then have 4: "drop_space_around (CHR ''-'') s = s"
    using not_space_marks(2) by (intro around_fix)
  have "adj (\<lambda>x y. \<not> (x = CHR ''{'' \<and> is_space y)) s"
    using a by (rule adj_mono) (auto simp: tidy_pair_def)
  then have 5: "drop_space_after (CHR ''{'') s = s" by (rule after_fix)
  have "adj (\<lambda>x y. \<not> (is_space x \<and> y = CHR ''}'') \<and> \<not> (x = CHR ''}'' \<and> is_space y)) s"
    using a by (rule adj_mono) (auto simp: tidy_pair_def)
  then have 6: "drop_space_around (CHR ''}'') s = s"
    using not_space_marks(4) by (intro around_fix)
  show ?thesis by (simp add: six_passes_def 1 2 3 4 5 6)
qed

subsection \<open>The bars and the lower case\<close>

lemma insert_or_tidy: "tidy s \<Longrightarrow> tidy (insert_or s)"
proof -
  assume t: "tidy s"
  have "adj tidy_pair s \<Longrightarrow> adj tidy_pair (insert_or s)"
  proof (induction s rule: insert_or.induct)
    case 1
    show ?case by simp
  next
    case (2 c cs)
    have i: "adj tidy_pair (insert_or cs)"
      using "2.IH" adj_tl [OF "2.prems"] by auto
    have p: "cs \<noteq> [] \<longrightarrow> tidy_pair c (hd cs)" using "2.prems" by (auto simp: adj_Cons)
    show ?case
    proof (cases "c = CHR ''}'' \<and> cs \<noteq> [] \<and> hd cs \<noteq> CHR '',''")
      case True
      then have "\<not> is_space (hd cs)" using p by (auto simp: tidy_pair_def)
      then have "tidy_pair (CHR ''|'') (hd cs)" "tidy_pair (CHR ''}'') (CHR ''|'')"
        using not_space_marks by (auto simp: tidy_pair_def)
      then show ?thesis using True i by (auto simp: adj_Cons insert_or_Nil insert_or_hd)
    next
      case False
      then have "insert_or (c # cs) = c # insert_or cs" by auto
      then show ?thesis using i p by (auto simp: adj_Cons insert_or_Nil insert_or_hd)
    qed
  qed
  then show ?thesis
    using t by (auto simp: tidy_def no_space_ends_def insert_or_Nil insert_or_hd insert_or_last)
qed

lemma lower_char_cases:
  "lower_char c = c \<or> (c \<in> set ''ABCDEFGHIJKLMNOPQRSTUVWXYZ''
     \<and> lower_char c \<in> set ''abcdefghijklmnopqrstuvwxyz'')"
proof (cases "map_of upper_lower c")
  case None
  then show ?thesis by (simp add: lower_char_def)
next
  case (Some d)
  then have "(c, d) \<in> set upper_lower" by (rule map_of_SomeD)
  then have "c \<in> set ''ABCDEFGHIJKLMNOPQRSTUVWXYZ'' \<and> d \<in> set ''abcdefghijklmnopqrstuvwxyz''"
    unfolding upper_lower_def by (meson set_zip_leftD set_zip_rightD)
  then show ?thesis using Some by (simp add: lower_char_def)
qed

lemma upper_plain:
  "x \<in> set ''ABCDEFGHIJKLMNOPQRSTUVWXYZ'' \<Longrightarrow>
     \<not> is_space x \<and> x \<noteq> CHR '','' \<and> x \<noteq> CHR ''-'' \<and> x \<noteq> CHR ''{'' \<and> x \<noteq> CHR ''}''
     \<and> x \<noteq> CHR ''|''"
  by (auto simp: is_space_def)

lemma lower_plain:
  "x \<in> set ''abcdefghijklmnopqrstuvwxyz'' \<Longrightarrow>
     \<not> is_space x \<and> x \<noteq> CHR '','' \<and> x \<noteq> CHR ''-'' \<and> x \<noteq> CHR ''{'' \<and> x \<noteq> CHR ''}''
     \<and> x \<noteq> CHR ''|''"
  by (auto simp: is_space_def)

lemma lower_code: "x \<in> set ''abcdefghijklmnopqrstuvwxyz'' \<Longrightarrow> 97 \<le> (of_char x :: nat)"
  by auto

lemma upper_code: "x \<in> set ''ABCDEFGHIJKLMNOPQRSTUVWXYZ'' \<Longrightarrow> (of_char x :: nat) \<le> 90"
  by auto

lemma lower_not_upper:
  assumes "x \<in> set ''abcdefghijklmnopqrstuvwxyz''"
  shows "map_of upper_lower x = None"
proof -
  have "x \<notin> set ''ABCDEFGHIJKLMNOPQRSTUVWXYZ''"
  proof
    assume "x \<in> set ''ABCDEFGHIJKLMNOPQRSTUVWXYZ''"
    then have "(of_char x :: nat) \<le> 90" by (rule upper_code)
    moreover have "97 \<le> (of_char x :: nat)" using assms by (rule lower_code)
    ultimately show False by simp
  qed
  then have "x \<notin> fst ` set upper_lower"
    unfolding upper_lower_def using set_zip_leftD by fastforce
  then show ?thesis by (simp add: map_of_eq_None_iff)
qed

lemma lower_char_plain:
  assumes "lower_char c \<noteq> c"
  shows "(\<not> is_space c \<and> c \<noteq> CHR '','' \<and> c \<noteq> CHR ''-'' \<and> c \<noteq> CHR ''{'' \<and> c \<noteq> CHR ''}''
      \<and> c \<noteq> CHR ''|'')
    \<and> (\<not> is_space (lower_char c) \<and> lower_char c \<noteq> CHR '','' \<and> lower_char c \<noteq> CHR ''-''
      \<and> lower_char c \<noteq> CHR ''{'' \<and> lower_char c \<noteq> CHR ''}'' \<and> lower_char c \<noteq> CHR ''|'')"
proof -
  from assms lower_char_cases [of c]
  have u: "c \<in> set ''ABCDEFGHIJKLMNOPQRSTUVWXYZ''"
    and l: "lower_char c \<in> set ''abcdefghijklmnopqrstuvwxyz''" by blast+
  from upper_plain [OF u] lower_plain [OF l] show ?thesis by blast
qed

lemma lower_char_space: "is_space (lower_char c) = is_space c"
proof (cases "lower_char c = c")
  case True
  then show ?thesis by simp
next
  case False
  from lower_char_plain [OF this] show ?thesis by blast
qed

lemma lower_char_mark:
  assumes "m = CHR '','' \<or> m = CHR ''-'' \<or> m = CHR ''{'' \<or> m = CHR ''}'' \<or> m = CHR ''|''"
  shows "(lower_char c = m) = (c = m)"
proof (cases "lower_char c = c")
  case True
  then show ?thesis by simp
next
  case False
  from lower_char_plain [OF this] assms show ?thesis by blast
qed

lemma lower_char_twice: "lower_char (lower_char c) = lower_char c"
proof (cases "lower_char c = c")
  case True
  then show ?thesis by simp
next
  case False
  with lower_char_cases [of c]
  have "lower_char c \<in> set ''abcdefghijklmnopqrstuvwxyz''" by blast
  then have "map_of upper_lower (lower_char c) = None" by (rule lower_not_upper)
  moreover have "map_of upper_lower d = None \<Longrightarrow> lower_char d = d" for d
    by (simp add: lower_char_def)
  ultimately show ?thesis by blast
qed

lemma lower_twice: "lower (lower s) = lower s"
  by (simp add: lower_def lower_char_twice)

lemma lower_tidy: "tidy s \<Longrightarrow> tidy (lower s)"
proof -
  assume t: "tidy s"
  have "tidy_pair x y \<Longrightarrow> tidy_pair (lower_char x) (lower_char y)" for x y
    by (simp add: tidy_pair_def lower_char_space lower_char_mark)
  then have "adj tidy_pair (map lower_char s)"
    using t by (intro adj_map) (auto simp: tidy_def)
  moreover have "no_space_ends (map lower_char s)"
    using t by (auto simp: tidy_def no_space_ends_def hd_map last_map lower_char_space)
  ultimately show ?thesis by (simp add: tidy_def lower_def)
qed

lemma lower_insert_or: "lower (insert_or s) = insert_or (lower s)"
proof (induction s)
  case Nil
  show ?case by (simp add: lower_def)
next
  case (Cons c cs)
  let ?b = "c = CHR ''}'' \<and> cs \<noteq> [] \<and> hd cs \<noteq> CHR '',''"
  have IH: "map lower_char (insert_or cs) = insert_or (map lower_char cs)"
    using Cons.IH by (simp add: lower_def)
  have m: "lower_char (CHR ''}'') = CHR ''}''" "lower_char (CHR ''|'') = CHR ''|''"
    by (simp_all add: lower_char_mark)
  have cond: "(lower_char c = CHR ''}'' \<and> map lower_char cs \<noteq> []
      \<and> hd (map lower_char cs) \<noteq> CHR '','') = ?b"
    by (cases cs) (simp_all add: lower_char_mark)
  have "insert_or (map lower_char (c # cs)) =
      (if ?b then CHR ''}'' # CHR ''|'' # insert_or (map lower_char cs)
       else lower_char c # insert_or (map lower_char cs))"
    using cond by simp
  moreover have "map lower_char (insert_or (c # cs)) =
      (if ?b then CHR ''}'' # CHR ''|'' # map lower_char (insert_or cs)
       else lower_char c # map lower_char (insert_or cs))"
    using m by simp
  ultimately show ?case by (simp only: lower_def IH)
qed

subsection \<open>Normalizing twice\<close>

lemma normalize_tidy: "tidy (normalize s)"
  unfolding normalize_six by (intro lower_tidy insert_or_tidy six_passes_tidy)

lemma normalize_lowered: "lower (normalize s) = normalize s"
  by (simp add: normalize_six lower_twice)

lemma normalize_again: "normalize (normalize s) = insert_or (normalize s)"
proof -
  have "normalize (normalize s) = lower (insert_or (six_passes (normalize s)))"
    by (rule normalize_six)
  also have "\<dots> = lower (insert_or (normalize s))"
    by (simp add: six_passes_fix [OF normalize_tidy])
  also have "\<dots> = insert_or (lower (normalize s))"
    by (rule lower_insert_or)
  also have "\<dots> = insert_or (normalize s)"
    by (simp add: normalize_lowered)
  finally show ?thesis .
qed

lemma insert_or_fix:
  "(insert_or s = s) = adj (\<lambda>x y. x = CHR ''}'' \<longrightarrow> y = CHR '','') s"
proof (induction s rule: insert_or.induct)
  case 1
  show ?case by simp
next
  case (2 c cs)
  show ?case
  proof (cases "c = CHR ''}'' \<and> cs \<noteq> [] \<and> hd cs \<noteq> CHR '',''")
    case True
    have "length cs \<le> length (insert_or cs)" by (rule insert_or_length)
    then have "length (CHR ''|'' # insert_or cs) \<noteq> length cs" by simp
    then have "CHR ''|'' # insert_or cs \<noteq> cs" by metis
    then have "insert_or (c # cs) \<noteq> c # cs" using True by simp
    moreover have "\<not> adj (\<lambda>x y. x = CHR ''}'' \<longrightarrow> y = CHR '','') (c # cs)"
      using True by (auto simp: adj_Cons)
    ultimately show ?thesis by blast
  next
    case False
    then have "insert_or (c # cs) = c # insert_or cs" by auto
    then have "(insert_or (c # cs) = c # cs) = (insert_or cs = cs)" by simp
    moreover have "adj (\<lambda>x y. x = CHR ''}'' \<longrightarrow> y = CHR '','') (c # cs)
        = adj (\<lambda>x y. x = CHR ''}'' \<longrightarrow> y = CHR '','') cs"
      using False by (cases cs) auto
    ultimately show ?thesis using "2.IH" False by auto
  qed
qed

lemma insert_or_follow:
  "adj (\<lambda>x y. x = CHR ''}'' \<longrightarrow> y = CHR '','' \<or> y = CHR ''|'') (insert_or s)"
proof (induction s rule: insert_or.induct)
  case 1
  show ?case by simp
next
  case (2 c cs)
  show ?case
  proof (cases "c = CHR ''}'' \<and> cs \<noteq> [] \<and> hd cs \<noteq> CHR '',''")
    case True
    then show ?thesis using "2.IH" by (auto simp: adj_Cons insert_or_Nil insert_or_hd)
  next
    case False
    then have "insert_or (c # cs) = c # insert_or cs" by auto
    then show ?thesis using "2.IH" False by (auto simp: adj_Cons insert_or_Nil insert_or_hd)
  qed
qed

lemma normalize_follow:
  "adj (\<lambda>x y. x = CHR ''}'' \<longrightarrow> y = CHR '','' \<or> y = CHR ''|'') (normalize s)"
proof -
  have "(x = CHR ''}'' \<longrightarrow> y = CHR '','' \<or> y = CHR ''|'') \<Longrightarrow>
      (lower_char x = CHR ''}'' \<longrightarrow> lower_char y = CHR '','' \<or> lower_char y = CHR ''|'')"
    for x y
    by (simp add: lower_char_mark)
  then show ?thesis
    unfolding normalize_six lower_def using insert_or_follow by (intro adj_map)
qed

text \<open>
  Claim C9, as amended. On a text that is already normalized, the six whitespace passes
  and the lower-casing change nothing, but the pass that inserts the bars runs again:
  normalizing twice is normalizing once and then inserting the bars once more. So the
  normalizer leaves a normalized text unchanged exactly when that text holds no closing
  brace followed by a bar, that is, when no sub-period has two scale tests.
\<close>

theorem normalize_twice:
  "normalize (normalize s) = insert_or (normalize s)
   \<and> (normalize (normalize s) = normalize s)
       = (\<not> (\<exists>pre post. normalize s = pre @ ''}|'' @ post))"
proof -
  let ?n = "normalize s"
  have "(insert_or ?n = ?n) = (\<not> (\<exists>pre post. ?n = pre @ ''}|'' @ post))"
  proof
    assume "insert_or ?n = ?n"
    then have a: "adj (\<lambda>x y. x = CHR ''}'' \<longrightarrow> y = CHR '','') ?n"
      by (simp add: insert_or_fix)
    show "\<not> (\<exists>pre post. ?n = pre @ ''}|'' @ post)"
    proof
      assume "\<exists>pre post. ?n = pre @ ''}|'' @ post"
      then obtain pre post where "?n = pre @ CHR ''}'' # CHR ''|'' # post" by auto
      then have "CHR ''}'' = CHR ''}'' \<longrightarrow> CHR ''|'' = CHR '',''"
        using a unfolding adj_split by blast
      then show False by simp
    qed
  next
    assume n: "\<not> (\<exists>pre post. ?n = pre @ ''}|'' @ post)"
    have "adj (\<lambda>x y. x = CHR ''}'' \<longrightarrow> y = CHR '','') ?n"
      unfolding adj_split
    proof (intro allI impI)
      fix pre x y post
      assume d: "?n = pre @ x # y # post" and x: "x = CHR ''}''"
      have "x = CHR ''}'' \<longrightarrow> y = CHR '','' \<or> y = CHR ''|''"
        using normalize_follow [of s] d unfolding adj_split by blast
      then have "y = CHR '','' \<or> y = CHR ''|''" using x by simp
      moreover have "y \<noteq> CHR ''|''"
      proof
        assume "y = CHR ''|''"
        then have "?n = pre @ ''}|'' @ post" using d x by simp
        then show False using n by blast
      qed
      ultimately show "y = CHR '',''" by simp
    qed
    then show "insert_or ?n = ?n" by (simp add: insert_or_fix)
  qed
  then show ?thesis by (simp add: normalize_again)
qed

theorem normalize_twice_counterexample:
  "normalize ''wd {mo} hr {9}'' = ''wd{mo}|hr{9}''
   \<and> normalize (normalize ''wd {mo} hr {9}'') = ''wd{mo}||hr{9}''
   \<and> normalize (normalize ''wd {mo} hr {9}'') \<noteq> normalize ''wd {mo} hr {9}''"
  by (simp add: normalize_def strip_def is_space_def lower_def lower_char_def upper_lower_def)

theorem normalize_twice_witness:
  "normalize (normalize '' Hr { 9 - 16 } , md {1}'') = normalize '' Hr { 9 - 16 } , md {1}''
   \<and> normalize '' Hr { 9 - 16 } , md {1}'' = ''hr{9-16},md{1}''
   \<and> normalize (normalize ''wd {mo} hr {9}'') = ''wd{mo}||hr{9}''"
proof -
  have a: "normalize '' Hr { 9 - 16 } , md {1}'' = ''hr{9-16},md{1}''"
    by (simp add: normalize_def strip_def is_space_def lower_def lower_char_def upper_lower_def)
  have b: "normalize ''wd {mo} hr {9}'' = ''wd{mo}|hr{9}''"
    by (simp add: normalize_def strip_def is_space_def lower_def lower_char_def upper_lower_def)
  show ?thesis
    using normalize_twice [of "'' Hr { 9 - 16 } , md {1}''"]
      normalize_twice [of "''wd {mo} hr {9}''"]
    by (simp add: a b)
qed

end
